theory Spec2Isabelle
  imports Main
begin

section \<open>Retry policy (batch\_processing.py, lines 58--81)\<close>

type_synonym path = string
type_synonym status = string

text \<open>The table \<open>RETRYABLE_STATUSES\<close>: status, priority, max\_attempts.\<close>

definition RETRYABLE_STATUSES :: "(status \<times> string \<times> int) list" where
  "RETRYABLE_STATUSES =
     [(''failed_api'', ''HIGH'', 5),
      (''failed_copy'', ''MEDIUM'', 3),
      (''failed_conversion'', ''MEDIUM'', 3),
      (''failed_frames'', ''MEDIUM'', 3),
      (''failed_worker'', ''MEDIUM'', 2),
      (''failed_timeout'', ''MEDIUM'', 2),
      (''failed_exception'', ''LOW'', 2),
      (''debug_artificial_failure'', ''HIGH'', 3)]"

definition NON_RETRYABLE_STATUSES :: "status list" where
  "NON_RETRYABLE_STATUSES = [''failed_format'', ''failed_empty'', ''failed_input_missing'']"

definition is_retryable :: "status \<Rightarrow> int \<Rightarrow> bool" where
  "is_retryable st attempt =
     (if st \<in> set NON_RETRYABLE_STATUSES then False
      else (case map_of RETRYABLE_STATUSES st of
              Some (priority, max_attempts) \<Rightarrow> attempt < max_attempts
            | None \<Rightarrow> False))"

section \<open>Results of a job and of retrieving it\<close>

text \<open>
  The dictionary returned by \<open>process_single_file\<close>. The record returned on
  cancellation has the keys \<open>status\<close> and \<open>input\<close> only; \<open>result.get\<close> of
  another key is then \<open>None\<close>.
\<close>

record metadata =
  title :: "string option"
  description :: string
  tags :: "string list"
  keyword_count :: "string option"

record result =
  r_status :: status
  r_input :: path
  r_output :: "path option"
  r_metadata :: "metadata option"
  r_original_filename :: "string option"
  r_new_filename :: "string option"

text \<open>
  What \<open>future.result(timeout=120)\<close> does for a future: it returns the worker's
  dictionary, returns a falsy value, or raises \<open>TimeoutError\<close>, \<open>CancelledError\<close> or
  another exception.
\<close>

datatype outcome =
    Returned result
  | Falsy
  | TimeoutError
  | CancelledError
  | OtherError

section \<open>State of a batch run (batch\_process\_files, lines 663--688 and 858--866)\<close>

text \<open>
  The local variables of \<open>batch_process_files\<close> that its nested functions share. A
  future is identified by the path it was submitted for (\<open>future_to_path\<close>). The last
  four fields are not variables of the source: \<open>force_stop\<close> is the provider's force-stop
  flag, \<open>clock\<close> counts the evaluations of \<open>should_stop()\<close>, \<open>submissions\<close> lists the
  calls of \<open>executor.submit\<close> with the credential passed, and \<open>peak\<close> is the largest
  number of futures that were pending at the same time.
\<close>

record bstate =
  processed_count :: int
  failed_count :: int
  skipped_count :: int
  stopped_count :: int
  completed_count :: int
  failed_files :: "(path \<times> status \<times> int) list"
  processed_files :: "path set"
  current_api_key_index :: nat
  file_queue_index :: nat
  pending_futures :: "path list"
  retry_processed :: int
  retry_failed :: int
  retry_stopped :: int
  retry_processed_files :: "path set"
  current_retry_failed_files :: "path list"
  retry_pending :: "path list"
  retry_queue_index :: nat
  force_stop :: bool
  clock :: nat
  submissions :: "(path \<times> string) list"
  peak :: nat

text \<open>
  The parameters of a run, and what the environment does during one pass over a queue
  (the first pass, or one retry round): which paths exist, how long a submission waits,
  what the workers return, and which futures each call of \<open>concurrent.futures.wait\<close>
  reports as done. \<open>stops t\<close> is the state of the cancellation signal at the \<open>t\<close>-th
  evaluation of \<open>should_stop()\<close>.
\<close>

record config =
  api_keys :: "string list"
  num_workers :: int
  auto_retry_enabled :: bool
  stops :: "nat \<Rightarrow> bool"

record pass_env =
  exists_on_dequeue :: "path \<Rightarrow> bool"
  cooldown_polls :: "path \<Rightarrow> nat"
  submit_raises :: "path \<Rightarrow> bool"
  future_result :: "path \<Rightarrow> outcome"
  done_on_cancel :: "path \<Rightarrow> bool"
  exists_after :: "path \<Rightarrow> bool"
  waits :: "path list list"

definition should_stop :: "config \<Rightarrow> bstate \<Rightarrow> bool \<times> bstate" where
  "should_stop c s = (stops c (clock s) \<or> force_stop s, s\<lparr>clock := clock s + 1\<rparr>)"

text \<open>
  The wait of lines 699--707: \<open>k\<close> polls of 0.05 s, each reading the cancellation signal
  first. The result is True when the wait was interrupted.
\<close>

fun cooldown :: "config \<Rightarrow> nat \<Rightarrow> bstate \<Rightarrow> bool \<times> bstate" where
  "cooldown c 0 s = (False, s)"
| "cooldown c (Suc k) s =
     (case should_stop c s of
        (True, s1) \<Rightarrow> (True, s1)
      | (False, s1) \<Rightarrow> cooldown c k s1)"

section \<open>First pass (lines 690--837)\<close>

text \<open>
  \<open>_submit_next_file\<close>: the loop \<open>while file_queue_index < len(file_queue)\<close>, over the
  part of the queue that is left. Indexing an empty \<open>api_keys\<close> raises inside the
  \<open>try\<close>, before the index is advanced; \<open>executor.submit\<close> raises after it.
\<close>

fun submit_from :: "config \<Rightarrow> pass_env \<Rightarrow> path list \<Rightarrow> bstate \<Rightarrow> bool \<times> bstate" where
  "submit_from c e [] s = (False, s)"
| "submit_from c e (input_path # rest) s =
     (let s1 = s\<lparr>file_queue_index := file_queue_index s + 1\<rparr> in
      if \<not> exists_on_dequeue e input_path \<or> input_path \<in> processed_files s1
      then submit_from c e rest s1
      else (case cooldown c (cooldown_polls e input_path) s1 of
              (True, s2) \<Rightarrow> (False, s2)
            | (False, s2) \<Rightarrow>
               (case should_stop c s2 of
                  (True, s3) \<Rightarrow> (False, s3)
                | (False, s3) \<Rightarrow>
                    if api_keys c = []
                    then submit_from c e rest
                           (s3\<lparr>failed_count := failed_count s3 + 1,
                               completed_count := completed_count s3 + 1\<rparr>)
                    else
                      (let assigned_api_key =
                             api_keys c ! (current_api_key_index s3 mod length (api_keys c));
                           s4 = s3\<lparr>current_api_key_index :=
                                      (current_api_key_index s3 + 1) mod length (api_keys c),
                                    submissions := submissions s3 @ [(input_path, assigned_api_key)]\<rparr>
                       in if submit_raises e input_path
                          then submit_from c e rest
                                 (s4\<lparr>failed_count := failed_count s4 + 1,
                                     completed_count := completed_count s4 + 1\<rparr>)
                          else (True,
                                s4\<lparr>pending_futures := pending_futures s4 @ [input_path],
                                    processed_files := insert input_path (processed_files s4),
                                    peak := max (peak s4) (length (pending_futures s4) + 1)\<rparr>)))))"

definition submit_next_file :: "config \<Rightarrow> pass_env \<Rightarrow> path list \<Rightarrow> bstate \<Rightarrow> bool \<times> bstate" where
  "submit_next_file c e file_queue s =
     submit_from c e (drop (file_queue_index s) file_queue) s"

text \<open>\<open>_handle_result\<close> for the future of path \<open>fut\<close>.\<close>

definition handle_result :: "pass_env \<Rightarrow> path \<Rightarrow> bstate \<Rightarrow> bstate" where
  "handle_result e fut s =
     (case future_result e fut of
        Returned r \<Rightarrow>
          (let s1 = s\<lparr>completed_count := completed_count s + 1\<rparr>;
               st = r_status r
           in if st = ''processed_exif'' \<or> st = ''processed_no_exif''
              then s1\<lparr>processed_count := processed_count s1 + 1\<rparr>
              else if st = ''processed_exif_failed'' \<or> st = ''processed_unknown_exif_status''
              then s1\<lparr>processed_count := processed_count s1 + 1\<rparr>
              else if st = ''skipped_exists''
              then s1\<lparr>skipped_count := skipped_count s1 + 1\<rparr>
              else if st = ''stopped''
              then s1\<lparr>stopped_count := stopped_count s1 + 1\<rparr>
              else s1\<lparr>failed_count := failed_count s1 + 1,
                      failed_files := failed_files s1 @ [(r_input r, st, 1)]\<rparr>)
      | Falsy \<Rightarrow>
          s\<lparr>completed_count := completed_count s + 1, failed_count := failed_count s + 1\<rparr>
      | TimeoutError \<Rightarrow>
          s\<lparr>completed_count := completed_count s + 1, failed_count := failed_count s + 1,
            failed_files := failed_files s @ [(fut, ''failed_timeout'', 1)]\<rparr>
      | CancelledError \<Rightarrow>
          s\<lparr>stopped_count := stopped_count s + 1\<rparr>
      | OtherError \<Rightarrow>
          s\<lparr>failed_count := failed_count s + 1,
            failed_files := failed_files s @ [(fut, ''failed_exception'', 1)]\<rparr>)"

text \<open>
  \<open>should_stop\<close> and the wait change nothing but the count of evaluations; one round of
  the loop of \<open>_submit_next_file\<close> ends in one of five ways.
\<close>

lemma should_stop_eq: "should_stop c s = (b, s') \<Longrightarrow> s' = s\<lparr>clock := clock s + 1\<rparr>"
  by (auto simp: should_stop_def)

lemma cooldown_eq: "cooldown c k s = (b, s') \<Longrightarrow> \<exists>n. s' = s\<lparr>clock := n\<rparr>"
proof (induction k arbitrary: s)
  case 0 then show ?case by (auto intro: exI[of _ "clock s"])
next
  case (Suc k)
  show ?case
  proof (cases "should_stop c s")
    case (Pair b1 s1)
    then have s1: "s1 = s\<lparr>clock := clock s + 1\<rparr>" by (rule should_stop_eq)
    show ?thesis
    proof (cases b1)
      case True with Suc.prems Pair s1 show ?thesis by auto
    next
      case False
      with Suc.prems Pair have "cooldown c k s1 = (b, s')" by simp
      from Suc.IH[OF this] s1 show ?thesis by auto
    qed
  qed
qed

lemma cooldown_True: "cooldown c k s = (True, s') \<Longrightarrow> (\<exists>m. stops c m) \<or> force_stop s"
proof (induction k arbitrary: s)
  case 0 then show ?case by simp
next
  case (Suc k)
  show ?case
  proof (cases "stops c (clock s) \<or> force_stop s")
    case True then show ?thesis by blast
  next
    case False
    with Suc.prems have "cooldown c k (s\<lparr>clock := clock s + 1\<rparr>) = (True, s')"
      by (simp add: should_stop_def)
    from Suc.IH[OF this] show ?thesis by simp
  qed
qed

lemma should_stop_True: "should_stop c s = (True, s') \<Longrightarrow> (\<exists>m. stops c m) \<or> force_stop s"
  by (auto simp: should_stop_def)

lemma submit_from_Cons_cases:
  assumes "submit_from c e (p # q) s = (b, s')"
  obtains
    (skip) "\<not> exists_on_dequeue e p \<or> p \<in> processed_files s"
           "submit_from c e q (s\<lparr>file_queue_index := file_queue_index s + 1\<rparr>) = (b, s')"
  | (stopped) n where "\<not> b" "s' = s\<lparr>file_queue_index := file_queue_index s + 1, clock := n\<rparr>"
           "(\<exists>m. stops c m) \<or> force_stop s"
  | (nokeys) n where "api_keys c = []"
           "submit_from c e q (s\<lparr>file_queue_index := file_queue_index s + 1, clock := n,
               failed_count := failed_count s + 1, completed_count := completed_count s + 1\<rparr>) = (b, s')"
  | (raises) n where "api_keys c \<noteq> []" "submit_raises e p"
           "submit_from c e q (s\<lparr>file_queue_index := file_queue_index s + 1, clock := n,
               current_api_key_index := (current_api_key_index s + 1) mod length (api_keys c),
               submissions := submissions s @ [(p, api_keys c ! (current_api_key_index s mod length (api_keys c)))],
               failed_count := failed_count s + 1, completed_count := completed_count s + 1\<rparr>) = (b, s')"
  | (ok) n where "b" "api_keys c \<noteq> []" "exists_on_dequeue e p" "p \<notin> processed_files s"
           "s' = s\<lparr>file_queue_index := file_queue_index s + 1, clock := n,
               current_api_key_index := (current_api_key_index s + 1) mod length (api_keys c),
               submissions := submissions s @ [(p, api_keys c ! (current_api_key_index s mod length (api_keys c)))],
               pending_futures := pending_futures s @ [p],
               processed_files := insert p (processed_files s),
               peak := max (peak s) (length (pending_futures s) + 1)\<rparr>"
           "\<not> submit_raises e p"
proof (cases "\<not> exists_on_dequeue e p \<or> p \<in> processed_files s")
  case True
  with assms show ?thesis by (intro skip) (auto simp: Let_def)
next
  case False
  define s1 where "s1 = s\<lparr>file_queue_index := file_queue_index s + 1\<rparr>"
  obtain b2 s2 where cd: "cooldown c (cooldown_polls e p) s1 = (b2, s2)" by (cases "cooldown c (cooldown_polls e p) s1")
  then obtain n2 where s2: "s2 = s1\<lparr>clock := n2\<rparr>" using cooldown_eq by blast
  show ?thesis
  proof (cases b2)
    case True
    with assms False cd have "\<not> b" "s' = s2" by (auto simp: Let_def s1_def)
    moreover have "(\<exists>m. stops c m) \<or> force_stop s"
      using cooldown_True[of c "cooldown_polls e p" s1 s2] cd True by (simp add: s1_def)
    ultimately show ?thesis using s2 by (intro stopped[of n2]) (auto simp: s1_def)
  next
    case nb2: False
    obtain b3 s3 where ss: "should_stop c s2 = (b3, s3)" by (cases "should_stop c s2")
    then have s3: "s3 = s2\<lparr>clock := clock s2 + 1\<rparr>" by (rule should_stop_eq)
    show ?thesis
    proof (cases b3)
      case True
      with assms False cd nb2 ss have "\<not> b" "s' = s3" by (auto simp: Let_def s1_def)
      moreover have "(\<exists>m. stops c m) \<or> force_stop s"
        using should_stop_True[of c s2 s3] ss True by (simp add: s2 s1_def)
      ultimately show ?thesis using s2 s3 by (intro stopped[of "n2 + 1"]) (auto simp: s1_def)
    next
      case nb3: False
      show ?thesis
      proof (cases "api_keys c = []")
        case True
        with assms False cd nb2 ss nb3 show ?thesis
          by (intro nokeys[of "n2 + 1"]) (auto simp: Let_def s1_def s2 s3)
      next
        case keys: False
        show ?thesis
        proof (cases "submit_raises e p")
          case True
          with assms False cd nb2 ss nb3 keys show ?thesis
            by (intro raises[of "n2 + 1"]) (auto simp: Let_def s1_def s2 s3)
        next
          case nr: False
          with assms False cd nb2 ss nb3 keys show ?thesis
            by (intro ok[of "n2 + 1"]) (auto simp: Let_def s1_def s2 s3)
        qed
      qed
    qed
  qed
qed

lemma submit_from_pending:
  "submit_from c e q s = (True, s') \<Longrightarrow> length (pending_futures s') = length (pending_futures s) + 1"
proof (induction q arbitrary: s)
  case Nil then show ?case by simp
next
  case (Cons p q)
  from Cons.prems show ?case
    by (cases rule: submit_from_Cons_cases) (auto dest: Cons.IH)
qed

text \<open>
  Lines 807--809: fill the pool up to \<open>num_workers\<close>. The signal is read only while the
  pool has room (\<open>and\<close> evaluates its second operand only then).
\<close>

function prefill :: "config \<Rightarrow> pass_env \<Rightarrow> path list \<Rightarrow> bstate \<Rightarrow> bstate" where
  "prefill c e file_queue s =
     (if int (length (pending_futures s)) < num_workers c
      then (case should_stop c s of
              (True, s1) \<Rightarrow> s1
            | (False, s1) \<Rightarrow>
               (case submit_next_file c e file_queue s1 of
                  (False, s2) \<Rightarrow> s2
                | (True, s2) \<Rightarrow> prefill c e file_queue s2))
      else s)"
  by pat_completeness auto
termination
  apply (relation "measure (\<lambda>(c, e, file_queue, s). nat (num_workers c - int (length (pending_futures s))))")
   apply simp
  apply (auto simp: submit_next_file_def dest!: should_stop_eq[OF sym] submit_from_pending[OF sym])
  done

declare prefill.simps [simp del]

text \<open>Lines 819--824: the futures of one \<open>done_set\<close>, each collected and replaced.\<close>

fun for_done :: "config \<Rightarrow> pass_env \<Rightarrow> path list \<Rightarrow> path list \<Rightarrow> bstate \<Rightarrow> bstate" where
  "for_done c e file_queue [] s = s"
| "for_done c e file_queue (done_future # rest) s =
     (let s1 = s\<lparr>pending_futures := removeAll done_future (pending_futures s)\<rparr>;
          s2 = handle_result e done_future s1
      in case should_stop c s2 of
           (True, s3) \<Rightarrow> for_done c e file_queue rest s3
         | (False, s3) \<Rightarrow> for_done c e file_queue rest (snd (submit_next_file c e file_queue s3)))"

text \<open>
  Lines 812--824. Each element of \<open>ws\<close> is what one call of \<open>wait\<close> reports; only
  futures that are pending can be in \<open>done_set\<close>. The first component of the result is
  False when \<open>ws\<close> ends while futures are pending and no cancellation was seen: the loop
  would go on waiting.
\<close>

fun sliding_window :: "config \<Rightarrow> pass_env \<Rightarrow> path list \<Rightarrow> path list list \<Rightarrow> bstate \<Rightarrow> bool \<times> bstate" where
  "sliding_window c e file_queue ws s =
     (if pending_futures s = [] then (True, s)
      else (case should_stop c s of
              (True, s1) \<Rightarrow> (True, s1)
            | (False, s1) \<Rightarrow>
               (case ws of
                  [] \<Rightarrow> (False, s1)
                | w # ws' \<Rightarrow>
                   (let done_set = filter (\<lambda>f. f \<in> set (pending_futures s1)) (remdups w)
                    in case should_stop c s1 of
                         (True, s2) \<Rightarrow> (True, s2)
                       | (False, s2) \<Rightarrow>
                           sliding_window c e file_queue ws' (for_done c e file_queue done_set s2)))))"

declare sliding_window.simps [simp del]

text \<open>Lines 826--837: on cancellation, the pending futures that are not done are counted.\<close>

definition cancel_remaining :: "config \<Rightarrow> pass_env \<Rightarrow> bstate \<Rightarrow> bstate" where
  "cancel_remaining c e s =
     (case should_stop c s of
        (True, s1) \<Rightarrow>
          (let s2 = s1\<lparr>force_stop := True\<rparr>;
               remaining_submitted = int (length (filter (\<lambda>f. \<not> done_on_cancel e f) (pending_futures s2)))
           in if remaining_submitted > 0
              then s2\<lparr>stopped_count := stopped_count s2 + remaining_submitted,
                      completed_count := completed_count s2 + remaining_submitted\<rparr>
              else s2)
      | (False, s1) \<Rightarrow> s1)"

definition first_pass :: "config \<Rightarrow> pass_env \<Rightarrow> path list \<Rightarrow> bstate \<Rightarrow> bool \<times> bstate" where
  "first_pass c e file_queue s =
     (case sliding_window c e file_queue (waits e) (prefill c e file_queue s) of
        (False, s1) \<Rightarrow> (False, s1)
      | (True, s1) \<Rightarrow> (True, cancel_remaining c e s1))"

section \<open>Retry rounds (lines 839--1040)\<close>

text \<open>Lines 845--852: the candidates of the first retry round.\<close>

definition initial_retry_files :: "pass_env \<Rightarrow> (path \<times> status \<times> int) list \<Rightarrow> path list" where
  "initial_retry_files e ff =
     (let retryable_failed_files =
            filter (\<lambda>(file_path, st, attempt).
                      file_path \<noteq> [] \<and> exists_after e file_path \<and> is_retryable st attempt) ff
      in map fst retryable_failed_files)"

text \<open>\<open>_submit_retry_file\<close> (lines 868--916), over the part of \<open>retry_files\<close> that is left.\<close>

fun submit_retry_from :: "config \<Rightarrow> pass_env \<Rightarrow> path list \<Rightarrow> bstate \<Rightarrow> bool \<times> bstate" where
  "submit_retry_from c e [] s = (False, s)"
| "submit_retry_from c e (input_path # rest) s =
     (let s1 = s\<lparr>retry_queue_index := retry_queue_index s + 1\<rparr> in
      if \<not> exists_on_dequeue e input_path \<or> input_path \<in> retry_processed_files s1
      then submit_retry_from c e rest s1
      else (case cooldown c (cooldown_polls e input_path) s1 of
              (True, s2) \<Rightarrow> (False, s2)
            | (False, s2) \<Rightarrow>
               (case should_stop c s2 of
                  (True, s3) \<Rightarrow> (False, s3)
                | (False, s3) \<Rightarrow>
                    if api_keys c = []
                    then submit_retry_from c e rest
                           (s3\<lparr>retry_failed := retry_failed s3 + 1,
                               current_retry_failed_files :=
                                 current_retry_failed_files s3 @ [input_path]\<rparr>)
                    else
                      (let assigned_api_key =
                             api_keys c ! (current_api_key_index s3 mod length (api_keys c));
                           s4 = s3\<lparr>current_api_key_index :=
                                      (current_api_key_index s3 + 1) mod length (api_keys c),
                                    submissions := submissions s3 @ [(input_path, assigned_api_key)]\<rparr>
                       in if submit_raises e input_path
                          then submit_retry_from c e rest
                                 (s4\<lparr>retry_failed := retry_failed s4 + 1,
                                     current_retry_failed_files :=
                                       current_retry_failed_files s4 @ [input_path]\<rparr>)
                          else (True,
                                s4\<lparr>retry_pending := retry_pending s4 @ [input_path],
                                    retry_processed_files := insert input_path (retry_processed_files s4),
                                    peak := max (peak s4) (length (retry_pending s4) + 1)\<rparr>)))))"

definition submit_retry_file :: "config \<Rightarrow> pass_env \<Rightarrow> path list \<Rightarrow> bstate \<Rightarrow> bool \<times> bstate" where
  "submit_retry_file c e retry_files s =
     submit_retry_from c e (drop (retry_queue_index s) retry_files) s"

text \<open>
  Lines 962--970: the loop that rewrites the entries of \<open>input_path\<close> in \<open>failed_files\<close>;
  \<open>new_attempt\<close> is the variable of that name, 1 before the loop.
\<close>

fun update_failed_files ::
  "path \<Rightarrow> status \<Rightarrow> (path \<times> status \<times> int) list \<Rightarrow> int \<Rightarrow> (path \<times> status \<times> int) list \<times> int" where
  "update_failed_files input_path st [] new_attempt = ([], new_attempt)"
| "update_failed_files input_path st ((fp, st0, att) # rest) new_attempt =
     (if fp = input_path
      then (case update_failed_files input_path st rest (att + 1) of
              (updated, n) \<Rightarrow> ((fp, st, att + 1) # updated, n))
      else (case update_failed_files input_path st rest new_attempt of
              (updated, n) \<Rightarrow> ((fp, st0, att) # updated, n)))"

text \<open>Lines 938--984: collecting the future of \<open>input_path\<close> in a retry round.\<close>

definition handle_retry_result :: "pass_env \<Rightarrow> path \<Rightarrow> bstate \<Rightarrow> bstate" where
  "handle_retry_result e input_path s =
     (case future_result e input_path of
        Returned r \<Rightarrow>
          (let st = r_status r
           in if st = ''processed_exif'' \<or> st = ''processed_no_exif'' \<or>
                 st = ''processed_exif_failed'' \<or> st = ''processed_unknown_exif_status''
              then s\<lparr>retry_processed := retry_processed s + 1,
                     processed_count := processed_count s + 1,
                     failed_count := failed_count s - 1,
                     failed_files := filter (\<lambda>(fp, st, att). fp \<noteq> input_path) (failed_files s)\<rparr>
              else if st = ''stopped''
              then s\<lparr>retry_stopped := retry_stopped s + 1\<rparr>
              else (case update_failed_files input_path st (failed_files s) 1 of
                      (updated_failed_files, new_attempt) \<Rightarrow>
                        s\<lparr>retry_failed := retry_failed s + 1,
                          failed_files := updated_failed_files,
                          current_retry_failed_files :=
                            (if is_retryable st new_attempt
                             then current_retry_failed_files s @ [input_path]
                             else current_retry_failed_files s)\<rparr>))
      | Falsy \<Rightarrow>
          s\<lparr>retry_failed := retry_failed s + 1,
            current_retry_failed_files := current_retry_failed_files s @ [input_path]\<rparr>
      | TimeoutError \<Rightarrow>
          s\<lparr>retry_failed := retry_failed s + 1,
            current_retry_failed_files := current_retry_failed_files s @ [input_path]\<rparr>
      | CancelledError \<Rightarrow>
          s\<lparr>retry_stopped := retry_stopped s + 1\<rparr>
      | OtherError \<Rightarrow>
          s\<lparr>retry_failed := retry_failed s + 1,
            current_retry_failed_files := current_retry_failed_files s @ [input_path]\<rparr>)"

lemma submit_retry_from_Cons_cases:
  assumes "submit_retry_from c e (p # q) s = (b, s')"
  obtains
    (skip) "\<not> exists_on_dequeue e p \<or> p \<in> retry_processed_files s"
           "submit_retry_from c e q (s\<lparr>retry_queue_index := retry_queue_index s + 1\<rparr>) = (b, s')"
  | (stopped) n where "\<not> b" "s' = s\<lparr>retry_queue_index := retry_queue_index s + 1, clock := n\<rparr>"
           "(\<exists>m. stops c m) \<or> force_stop s"
  | (nokeys) n where "api_keys c = []"
           "submit_retry_from c e q (s\<lparr>retry_queue_index := retry_queue_index s + 1, clock := n,
               retry_failed := retry_failed s + 1,
               current_retry_failed_files := current_retry_failed_files s @ [p]\<rparr>) = (b, s')"
  | (raises) n where "api_keys c \<noteq> []" "submit_raises e p"
           "submit_retry_from c e q (s\<lparr>retry_queue_index := retry_queue_index s + 1, clock := n,
               current_api_key_index := (current_api_key_index s + 1) mod length (api_keys c),
               submissions := submissions s @ [(p, api_keys c ! (current_api_key_index s mod length (api_keys c)))],
               retry_failed := retry_failed s + 1,
               current_retry_failed_files := current_retry_failed_files s @ [p]\<rparr>) = (b, s')"
  | (ok) n where "b" "api_keys c \<noteq> []" "exists_on_dequeue e p" "p \<notin> retry_processed_files s"
           "s' = s\<lparr>retry_queue_index := retry_queue_index s + 1, clock := n,
               current_api_key_index := (current_api_key_index s + 1) mod length (api_keys c),
               submissions := submissions s @ [(p, api_keys c ! (current_api_key_index s mod length (api_keys c)))],
               retry_pending := retry_pending s @ [p],
               retry_processed_files := insert p (retry_processed_files s),
               peak := max (peak s) (length (retry_pending s) + 1)\<rparr>"
           "\<not> submit_raises e p"
proof (cases "\<not> exists_on_dequeue e p \<or> p \<in> retry_processed_files s")
  case True
  with assms show ?thesis by (intro skip) (auto simp: Let_def)
next
  case False
  define s1 where "s1 = s\<lparr>retry_queue_index := retry_queue_index s + 1\<rparr>"
  obtain b2 s2 where cd: "cooldown c (cooldown_polls e p) s1 = (b2, s2)" by (cases "cooldown c (cooldown_polls e p) s1")
  then obtain n2 where s2: "s2 = s1\<lparr>clock := n2\<rparr>" using cooldown_eq by blast
  show ?thesis
  proof (cases b2)
    case True
    with assms False cd have "\<not> b" "s' = s2" by (auto simp: Let_def s1_def)
    moreover have "(\<exists>m. stops c m) \<or> force_stop s"
      using cooldown_True[of c "cooldown_polls e p" s1 s2] cd True by (simp add: s1_def)
    ultimately show ?thesis using s2 by (intro stopped[of n2]) (auto simp: s1_def)
  next
    case nb2: False
    obtain b3 s3 where ss: "should_stop c s2 = (b3, s3)" by (cases "should_stop c s2")
    then have s3: "s3 = s2\<lparr>clock := clock s2 + 1\<rparr>" by (rule should_stop_eq)
    show ?thesis
    proof (cases b3)
      case True
      with assms False cd nb2 ss have "\<not> b" "s' = s3" by (auto simp: Let_def s1_def)
      moreover have "(\<exists>m. stops c m) \<or> force_stop s"
        using should_stop_True[of c s2 s3] ss True by (simp add: s2 s1_def)
      ultimately show ?thesis using s2 s3 by (intro stopped[of "n2 + 1"]) (auto simp: s1_def)
    next
      case nb3: False
      show ?thesis
      proof (cases "api_keys c = []")
        case True
        with assms False cd nb2 ss nb3 show ?thesis
          by (intro nokeys[of "n2 + 1"]) (auto simp: Let_def s1_def s2 s3)
      next
        case keys: False
        show ?thesis
        proof (cases "submit_raises e p")
          case True
          with assms False cd nb2 ss nb3 keys show ?thesis
            by (intro raises[of "n2 + 1"]) (auto simp: Let_def s1_def s2 s3)
        next
          case nr: False
          with assms False cd nb2 ss nb3 keys show ?thesis
            by (intro ok[of "n2 + 1"]) (auto simp: Let_def s1_def s2 s3)
        qed
      qed
    qed
  qed
qed

lemma submit_retry_from_pending:
  "submit_retry_from c e q s = (True, s') \<Longrightarrow> length (retry_pending s') = length (retry_pending s) + 1"
proof (induction q arbitrary: s)
  case Nil then show ?case by simp
next
  case (Cons p q)
  from Cons.prems show ?case
    by (cases rule: submit_retry_from_Cons_cases) (auto dest: Cons.IH)
qed

text \<open>Lines 924--926.\<close>

function retry_prefill :: "config \<Rightarrow> pass_env \<Rightarrow> path list \<Rightarrow> bstate \<Rightarrow> bstate" where
  "retry_prefill c e retry_files s =
     (if int (length (retry_pending s)) < num_workers c
      then (case should_stop c s of
              (True, s1) \<Rightarrow> s1
            | (False, s1) \<Rightarrow>
               (case submit_retry_file c e retry_files s1 of
                  (False, s2) \<Rightarrow> s2
                | (True, s2) \<Rightarrow> retry_prefill c e retry_files s2))
      else s)"
  by pat_completeness auto
termination
  apply (relation "measure (\<lambda>(c, e, retry_files, s). nat (num_workers c - int (length (retry_pending s))))")
   apply simp
  apply (auto simp: submit_retry_file_def dest!: should_stop_eq[OF sym] submit_retry_from_pending[OF sym])
  done

declare retry_prefill.simps [simp del]

text \<open>Lines 936--987.\<close>

fun retry_for_done :: "config \<Rightarrow> pass_env \<Rightarrow> path list \<Rightarrow> path list \<Rightarrow> bstate \<Rightarrow> bstate" where
  "retry_for_done c e retry_files [] s = s"
| "retry_for_done c e retry_files (done_future # rest) s =
     (let s1 = s\<lparr>retry_pending := removeAll done_future (retry_pending s)\<rparr>;
          s2 = handle_retry_result e done_future s1
      in case should_stop c s2 of
           (True, s3) \<Rightarrow> retry_for_done c e retry_files rest s3
         | (False, s3) \<Rightarrow>
             retry_for_done c e retry_files rest (snd (submit_retry_file c e retry_files s3)))"

text \<open>Lines 929--987.\<close>

fun retry_window :: "config \<Rightarrow> pass_env \<Rightarrow> path list \<Rightarrow> path list list \<Rightarrow> bstate \<Rightarrow> bool \<times> bstate" where
  "retry_window c e retry_files ws s =
     (if retry_pending s = [] then (True, s)
      else (case should_stop c s of
              (True, s1) \<Rightarrow> (True, s1)
            | (False, s1) \<Rightarrow>
               (case ws of
                  [] \<Rightarrow> (False, s1)
                | w # ws' \<Rightarrow>
                   (let done_set = filter (\<lambda>f. f \<in> set (retry_pending s1)) (remdups w)
                    in case should_stop c s1 of
                         (True, s2) \<Rightarrow> (True, s2)
                       | (False, s2) \<Rightarrow>
                           retry_window c e retry_files ws' (retry_for_done c e retry_files done_set s2)))))"

declare retry_window.simps [simp del]

text \<open>Lines 989--993: on cancellation the pending futures are cancelled; no counter changes.\<close>

definition retry_cancel :: "config \<Rightarrow> bstate \<Rightarrow> bstate" where
  "retry_cancel c s = snd (should_stop c s)"

text \<open>
  Lines 995--1007: the candidates of the next round. The inner loop takes the first entry
  of \<open>failed_files\<close> for the path.
\<close>

fun registry_entry :: "(path \<times> status \<times> int) list \<Rightarrow> path \<Rightarrow> status \<times> int" where
  "registry_entry [] file_path = (''failed_unknown'', 1)"
| "registry_entry ((fp, st, att) # rest) file_path =
     (if fp = file_path then (st, att) else registry_entry rest file_path)"

definition next_retry_files :: "pass_env \<Rightarrow> bstate \<Rightarrow> path list" where
  "next_retry_files e s =
     filter (\<lambda>file_path.
               file_path \<noteq> [] \<and> exists_after e file_path \<and>
               (case registry_entry (failed_files s) file_path of
                  (current_status, current_attempt) \<Rightarrow> is_retryable current_status current_attempt))
            (current_retry_failed_files s)"

text \<open>Lines 858--866: the variables of a round, as it starts.\<close>

definition start_round :: "bstate \<Rightarrow> bstate" where
  "start_round s =
     s\<lparr>retry_processed := 0, retry_failed := 0, retry_stopped := 0,
       retry_processed_files := {}, current_retry_failed_files := [],
       retry_pending := [], retry_queue_index := 0\<rparr>"

text \<open>
  One round (lines 858--1007), and the loop \<open>while retry_files and not should_stop()\<close>
  (lines 854--1027) over the environments of the rounds to come. The first component of
  the result is False when a round is still waiting, or when another round is due and
  \<open>envs\<close> has none left.
\<close>

definition retry_round :: "config \<Rightarrow> pass_env \<Rightarrow> path list \<Rightarrow> bstate \<Rightarrow> bool \<times> bstate" where
  "retry_round c e retry_files s =
     (case retry_window c e retry_files (waits e) (retry_prefill c e retry_files (start_round s)) of
        (False, s1) \<Rightarrow> (False, s1)
      | (True, s1) \<Rightarrow> (True, retry_cancel c s1))"

fun retry_loop :: "config \<Rightarrow> pass_env list \<Rightarrow> path list \<Rightarrow> bstate \<Rightarrow> bool \<times> bstate" where
  "retry_loop c envs retry_files s =
     (if retry_files = [] then (True, s)
      else (case should_stop c s of
              (True, s1) \<Rightarrow> (True, s1)
            | (False, s1) \<Rightarrow>
               (case envs of
                  [] \<Rightarrow> (False, s1)
                | e # envs' \<Rightarrow>
                   (case retry_round c e retry_files s1 of
                      (False, s2) \<Rightarrow> (False, s2)
                    | (True, s2) \<Rightarrow>
                       (let retry_files' = next_retry_files e s2
                        in if retry_processed s2 = 0 \<and> length retry_files' = 0
                           then (True, s2)
                           else retry_loop c envs' retry_files' s2)))))"

declare retry_loop.simps [simp del]

section \<open>The batch run (lines 636--1078)\<close>

text \<open>
  The summary dictionary; the key \<open>total_files\<close> is missing from the one returned when
  the run is cancelled right after the enumeration (lines 654--661).
\<close>

record summary =
  processed :: int
  failed :: int
  skipped :: int
  stopped :: int
  total_files :: "nat option"

text \<open>
  A run ends with a summary, or on the fatal path (lines 1080--1092), or it is still
  waiting for workers when the environment's script ends.
\<close>

datatype batch_result = Summary summary | FatalError | Waiting bstate

text \<open>Lines 663--688, with the force-stop flag reset (line 581).\<close>

definition initial_state :: bstate where
  "initial_state =
     \<lparr>processed_count = 0, failed_count = 0, skipped_count = 0, stopped_count = 0,
      completed_count = 0, failed_files = [], processed_files = {},
      current_api_key_index = 0, file_queue_index = 0, pending_futures = [],
      retry_processed = 0, retry_failed = 0, retry_stopped = 0,
      retry_processed_files = {}, current_retry_failed_files = [],
      retry_pending = [], retry_queue_index = 0,
      force_stop = False, clock = 0, submissions = [], peak = 0\<rparr>"

text \<open>Lines 841--1027; \<open>should_stop()\<close> is read only when the first two conditions hold.\<close>

definition retry_phase :: "config \<Rightarrow> pass_env \<Rightarrow> pass_env list \<Rightarrow> bstate \<Rightarrow> bool \<times> bstate" where
  "retry_phase c e0 envs s =
     (if auto_retry_enabled c \<and> failed_count s > 0
      then (case should_stop c s of
              (True, s1) \<Rightarrow> (True, s1)
            | (False, s1) \<Rightarrow> retry_loop c envs (initial_retry_files e0 (failed_files s1)) s1)
      else (True, s))"

text \<open>
  Lines 803--1040: the first pass, then the retry rounds. \<open>e0\<close> is the environment of
  the first pass and \<open>envs\<close> those of the retry rounds.
\<close>

definition run_passes ::
  "config \<Rightarrow> pass_env \<Rightarrow> pass_env list \<Rightarrow> path list \<Rightarrow> bstate \<Rightarrow> bool \<times> bstate" where
  "run_passes c e0 envs file_queue s =
     (case first_pass c e0 file_queue s of
        (False, s1) \<Rightarrow> (False, s1)
      | (True, s1) \<Rightarrow> retry_phase c e0 envs s1)"

text \<open>
  \<open>batch_process_files\<close> from line 636 on: \<open>files_to_process\<close> is the list the
  enumeration built. \<open>ThreadPoolExecutor\<close> raises \<open>ValueError\<close> for \<open>max_workers <= 0\<close>,
  which the outer \<open>except\<close> turns into the fatal result.
\<close>

definition batch_process_files ::
  "config \<Rightarrow> pass_env \<Rightarrow> pass_env list \<Rightarrow> path list \<Rightarrow> batch_result" where
  "batch_process_files c e0 envs files_to_process =
     (let n = length files_to_process in
      if n = 0
      then Summary \<lparr>processed = 0, failed = 0, skipped = 0, stopped = 0, total_files = Some 0\<rparr>
      else (case should_stop c initial_state of
              (True, s0) \<Rightarrow>
                Summary \<lparr>processed = 0, failed = 0, skipped = 0, stopped = int n,
                         total_files = None\<rparr>
            | (False, s0) \<Rightarrow>
                if num_workers c \<le> 0 then FatalError
                else (case run_passes c e0 envs files_to_process s0 of
                        (False, s1) \<Rightarrow> Waiting s1
                      | (True, s1) \<Rightarrow>
                          Summary \<lparr>processed = processed_count s1,
                                   failed = failed_count s1,
                                   skipped = skipped_count s1,
                                   stopped = stopped_count s1,
                                   total_files = Some n\<rparr>)))"

text \<open>
  Environments and results for the examples: in \<open>calm\<close> every path exists, no submission
  waits or raises, every worker returns \<open>processed_exif\<close>, and each call of \<open>wait\<close> in
  \<open>ws\<close> reports the listed futures.
\<close>

definition job :: "status \<Rightarrow> path \<Rightarrow> outcome" where
  "job st p = Returned \<lparr>r_status = st, r_input = p, r_output = None, r_metadata = None,
                         r_original_filename = None, r_new_filename = None\<rparr>"

definition calm :: "path list list \<Rightarrow> pass_env" where
  "calm ws =
     \<lparr>exists_on_dequeue = (\<lambda>p. True), cooldown_polls = (\<lambda>p. 0), submit_raises = (\<lambda>p. False),
      future_result = job ''processed_exif'', done_on_cancel = (\<lambda>p. False),
      exists_after = (\<lambda>p. True), waits = ws\<rparr>"

section \<open>Properties of the retry bookkeeping\<close>

text \<open>
  C3. A retry whose result cannot be retrieved leaves the failed registry as it was: with
  \<open>a.jpg\<close> registered as \<open>failed_api\<close>, attempt 1, a \<open>TimeoutError\<close> (and likewise any other
  exception) while collecting its retry keeps the entry \<open>(a.jpg, failed_api, 1)\<close>; neither
  the status nor the attempt count changes, whereas a returned failure status rewrites the
  entry with the attempt count plus one.
\<close>

theorem retry_timeout_keeps_registry:
  "failed_files (handle_retry_result ((calm [])\<lparr>future_result := (\<lambda>p. TimeoutError)\<rparr>) ''a.jpg''
       (initial_state\<lparr>failed_files := [(''a.jpg'', ''failed_api'', 1)]\<rparr>))
     = [(''a.jpg'', ''failed_api'', 1)]
   \<and> failed_files (handle_retry_result ((calm [])\<lparr>future_result := (\<lambda>p. OtherError)\<rparr>) ''a.jpg''
       (initial_state\<lparr>failed_files := [(''a.jpg'', ''failed_api'', 1)]\<rparr>))
     = [(''a.jpg'', ''failed_api'', 1)]
   \<and> failed_files (handle_retry_result ((calm [])\<lparr>future_result := job ''failed_copy''\<rparr>) ''a.jpg''
       (initial_state\<lparr>failed_files := [(''a.jpg'', ''failed_api'', 1)]\<rparr>))
     = [(''a.jpg'', ''failed_copy'', 2)]"
  by (simp add: handle_retry_result_def calm_def initial_state_def job_def Let_def)

section \<open>Invariants of the scheduler\<close>

text \<open>
  \<open>counted\<close> is the sum of the four counters of the summary. \<open>rr_ok\<close> says that the
  credentials were handed out in rotation so far, \<open>pool_ok\<close> that no more than
  \<open>num_workers\<close> futures were ever pending, and \<open>inv_first\<close> adds, for the first pass, that
  every counted or pending job was taken from the queue.
\<close>

definition counted :: "bstate \<Rightarrow> int" where
  "counted s = processed_count s + failed_count s + skipped_count s + stopped_count s"

definition rr_ok :: "config \<Rightarrow> bstate \<Rightarrow> bool" where
  "rr_ok c s \<longleftrightarrow>
     (\<forall>k < length (submissions s). snd (submissions s ! k) = api_keys c ! (k mod length (api_keys c))) \<and>
     (api_keys c \<noteq> [] \<longrightarrow> current_api_key_index s = length (submissions s) mod length (api_keys c)) \<and>
     (api_keys c = [] \<longrightarrow> submissions s = [])"

definition pool_ok :: "config \<Rightarrow> bstate \<Rightarrow> bool" where
  "pool_ok c s \<longleftrightarrow>
     length (pending_futures s) \<le> peak s \<and> length (retry_pending s) \<le> peak s \<and>
     int (peak s) \<le> num_workers c"

definition inv_first :: "config \<Rightarrow> nat \<Rightarrow> bstate \<Rightarrow> bool" where
  "inv_first c n s \<longleftrightarrow>
     pool_ok c s \<and> rr_ok c s \<and>
     counted s + int (length (pending_futures s)) \<le> int (file_queue_index s) \<and>
     file_queue_index s \<le> n"

lemma rr_ok_upd [simp]:
  "rr_ok c (s\<lparr>processed_count := v0\<rparr>) = rr_ok c s"
  "rr_ok c (s\<lparr>failed_count := v1\<rparr>) = rr_ok c s"
  "rr_ok c (s\<lparr>skipped_count := v2\<rparr>) = rr_ok c s"
  "rr_ok c (s\<lparr>stopped_count := v3\<rparr>) = rr_ok c s"
  "rr_ok c (s\<lparr>completed_count := v4\<rparr>) = rr_ok c s"
  "rr_ok c (s\<lparr>failed_files := v5\<rparr>) = rr_ok c s"
  "rr_ok c (s\<lparr>processed_files := v6\<rparr>) = rr_ok c s"
  "rr_ok c (s\<lparr>file_queue_index := v7\<rparr>) = rr_ok c s"
  "rr_ok c (s\<lparr>pending_futures := v8\<rparr>) = rr_ok c s"
  "rr_ok c (s\<lparr>retry_processed := v9\<rparr>) = rr_ok c s"
  "rr_ok c (s\<lparr>retry_failed := v10\<rparr>) = rr_ok c s"
  "rr_ok c (s\<lparr>retry_stopped := v11\<rparr>) = rr_ok c s"
  "rr_ok c (s\<lparr>retry_processed_files := v12\<rparr>) = rr_ok c s"
  "rr_ok c (s\<lparr>current_retry_failed_files := v13\<rparr>) = rr_ok c s"
  "rr_ok c (s\<lparr>retry_pending := v14\<rparr>) = rr_ok c s"
  "rr_ok c (s\<lparr>retry_queue_index := v15\<rparr>) = rr_ok c s"
  "rr_ok c (s\<lparr>force_stop := v16\<rparr>) = rr_ok c s"
  "rr_ok c (s\<lparr>clock := v17\<rparr>) = rr_ok c s"
  "rr_ok c (s\<lparr>peak := v18\<rparr>) = rr_ok c s"
  by (simp_all add: rr_ok_def)

lemma pool_ok_upd [simp]:
  "pool_ok c (s\<lparr>processed_count := v0\<rparr>) = pool_ok c s"
  "pool_ok c (s\<lparr>failed_count := v1\<rparr>) = pool_ok c s"
  "pool_ok c (s\<lparr>skipped_count := v2\<rparr>) = pool_ok c s"
  "pool_ok c (s\<lparr>stopped_count := v3\<rparr>) = pool_ok c s"
  "pool_ok c (s\<lparr>completed_count := v4\<rparr>) = pool_ok c s"
  "pool_ok c (s\<lparr>failed_files := v5\<rparr>) = pool_ok c s"
  "pool_ok c (s\<lparr>processed_files := v6\<rparr>) = pool_ok c s"
  "pool_ok c (s\<lparr>current_api_key_index := v7\<rparr>) = pool_ok c s"
  "pool_ok c (s\<lparr>file_queue_index := v8\<rparr>) = pool_ok c s"
  "pool_ok c (s\<lparr>retry_processed := v9\<rparr>) = pool_ok c s"
  "pool_ok c (s\<lparr>retry_failed := v10\<rparr>) = pool_ok c s"
  "pool_ok c (s\<lparr>retry_stopped := v11\<rparr>) = pool_ok c s"
  "pool_ok c (s\<lparr>retry_processed_files := v12\<rparr>) = pool_ok c s"
  "pool_ok c (s\<lparr>current_retry_failed_files := v13\<rparr>) = pool_ok c s"
  "pool_ok c (s\<lparr>retry_queue_index := v14\<rparr>) = pool_ok c s"
  "pool_ok c (s\<lparr>force_stop := v15\<rparr>) = pool_ok c s"
  "pool_ok c (s\<lparr>clock := v16\<rparr>) = pool_ok c s"
  "pool_ok c (s\<lparr>submissions := v17\<rparr>) = pool_ok c s"
  by (simp_all add: pool_ok_def)

lemma counted_upd [simp]:
  "counted (s\<lparr>completed_count := v0\<rparr>) = counted s"
  "counted (s\<lparr>failed_files := v1\<rparr>) = counted s"
  "counted (s\<lparr>processed_files := v2\<rparr>) = counted s"
  "counted (s\<lparr>current_api_key_index := v3\<rparr>) = counted s"
  "counted (s\<lparr>file_queue_index := v4\<rparr>) = counted s"
  "counted (s\<lparr>pending_futures := v5\<rparr>) = counted s"
  "counted (s\<lparr>retry_processed := v6\<rparr>) = counted s"
  "counted (s\<lparr>retry_failed := v7\<rparr>) = counted s"
  "counted (s\<lparr>retry_stopped := v8\<rparr>) = counted s"
  "counted (s\<lparr>retry_processed_files := v9\<rparr>) = counted s"
  "counted (s\<lparr>current_retry_failed_files := v10\<rparr>) = counted s"
  "counted (s\<lparr>retry_pending := v11\<rparr>) = counted s"
  "counted (s\<lparr>retry_queue_index := v12\<rparr>) = counted s"
  "counted (s\<lparr>force_stop := v13\<rparr>) = counted s"
  "counted (s\<lparr>clock := v14\<rparr>) = counted s"
  "counted (s\<lparr>submissions := v15\<rparr>) = counted s"
  "counted (s\<lparr>peak := v16\<rparr>) = counted s"
  by (simp_all add: counted_def)

lemma rr_ok_step:
  assumes ok: "rr_ok c s" and keys: "api_keys c \<noteq> []"
    and subs: "submissions s' = submissions s @ [(p, api_keys c ! (current_api_key_index s mod length (api_keys c)))]"
    and cur: "current_api_key_index s' = (current_api_key_index s + 1) mod length (api_keys c)"
  shows "rr_ok c s'"
proof -
  define n where "n = length (api_keys c)"
  define xs where "xs = submissions s"
  from ok keys have idx: "current_api_key_index s = length xs mod n"
    and old: "\<And>k. k < length xs \<Longrightarrow> snd (xs ! k) = api_keys c ! (k mod n)"
    unfolding rr_ok_def n_def xs_def by blast+
  have new: "submissions s' = xs @ [(p, api_keys c ! (length xs mod n))]"
    unfolding subs xs_def[symmetric] n_def[symmetric] idx by simp
  have "snd (submissions s' ! k) = api_keys c ! (k mod n)" if "k < length (submissions s')" for k
  proof (cases "k < length xs")
    case True
    then show ?thesis unfolding new by (simp add: nth_append old)
  next
    case False
    with that have "k = length xs" unfolding new by simp
    then show ?thesis unfolding new by simp
  qed
  moreover have "current_api_key_index s' = length (submissions s') mod n"
    unfolding cur n_def[symmetric] idx new by (simp add: mod_Suc_eq)
  ultimately show ?thesis using keys unfolding rr_ok_def n_def by blast
qed



lemma handle_result_counted: "counted (handle_result e f s) = counted s + 1"
  by (simp add: handle_result_def counted_def Let_def split: outcome.splits)

lemma handle_result_frame [simp]:
  "pending_futures (handle_result e f s) = pending_futures s"
  "retry_pending (handle_result e f s) = retry_pending s"
  "peak (handle_result e f s) = peak s"
  "submissions (handle_result e f s) = submissions s"
  "current_api_key_index (handle_result e f s) = current_api_key_index s"
  "file_queue_index (handle_result e f s) = file_queue_index s"
  "processed_files (handle_result e f s) = processed_files s"
  "force_stop (handle_result e f s) = force_stop s"
  "clock (handle_result e f s) = clock s"
  by (simp_all add: handle_result_def Let_def split: outcome.splits)

lemma inv_first_clock [simp]: "inv_first c n (s\<lparr>clock := k\<rparr>) = inv_first c n s"
  by (simp add: inv_first_def)

lemma inv_first_skip:
  "inv_first c n s \<Longrightarrow> file_queue_index s < n \<Longrightarrow>
   inv_first c n (s\<lparr>file_queue_index := file_queue_index s + 1\<rparr>)"
  by (simp add: inv_first_def)

lemma inv_first_fail:
  "inv_first c n s \<Longrightarrow> file_queue_index s < n \<Longrightarrow>
   inv_first c n (s\<lparr>file_queue_index := file_queue_index s + 1, clock := k,
       failed_count := failed_count s + 1, completed_count := completed_count s + 1\<rparr>)"
  by (simp add: inv_first_def counted_def)

lemma inv_first_raise:
  assumes "inv_first c n s" "file_queue_index s < n" "api_keys c \<noteq> []"
  shows "inv_first c n (s\<lparr>file_queue_index := file_queue_index s + 1, clock := k,
               current_api_key_index := (current_api_key_index s + 1) mod length (api_keys c),
               submissions := submissions s @ [(p, api_keys c ! (current_api_key_index s mod length (api_keys c)))],
               failed_count := failed_count s + 1, completed_count := completed_count s + 1\<rparr>)"
    (is "inv_first c n ?s")
proof -
  have "rr_ok c s" using assms(1) by (simp add: inv_first_def)
  then have "rr_ok c ?s" using assms(3) by (rule rr_ok_step) simp_all
  then show ?thesis using assms(1,2) by (simp add: inv_first_def counted_def pool_ok_def)
qed

lemma inv_first_ok:
  assumes "inv_first c n s" "file_queue_index s < n" "api_keys c \<noteq> []"
    "int (length (pending_futures s)) < num_workers c"
  shows "inv_first c n (s\<lparr>file_queue_index := file_queue_index s + 1, clock := k,
               current_api_key_index := (current_api_key_index s + 1) mod length (api_keys c),
               submissions := submissions s @ [(p, api_keys c ! (current_api_key_index s mod length (api_keys c)))],
               pending_futures := pending_futures s @ [p],
               processed_files := insert p (processed_files s),
               peak := max (peak s) (length (pending_futures s) + 1)\<rparr>)"
    (is "inv_first c n ?s")
proof -
  have "rr_ok c s" using assms(1) by (simp add: inv_first_def)
  then have "rr_ok c ?s" using assms(3) by (rule rr_ok_step) simp_all
  then show ?thesis using assms(1,2,4) by (simp add: inv_first_def counted_def pool_ok_def max_def)
qed

lemma submit_from_inv:
  assumes "submit_from c e q s = (b, s')" "inv_first c n s"
    "int (length (pending_futures s)) < num_workers c" "file_queue_index s + length q \<le> n"
  shows "inv_first c n s' \<and> set (pending_futures s) \<subseteq> set (pending_futures s')"
  using assms
proof (induction q arbitrary: s)
  case Nil then show ?case by simp
next
  case (Cons p q)
  have lt: "file_queue_index s < n" using Cons.prems(4) by simp
  from Cons.prems(1) show ?case
  proof (cases rule: submit_from_Cons_cases)
    case skip
    from Cons.IH[OF skip(2) inv_first_skip[OF Cons.prems(2) lt]] Cons.prems(3,4)
    show ?thesis by simp
  next
    case (stopped k)
    from inv_first_skip[OF Cons.prems(2) lt] show ?thesis unfolding stopped(2) by simp
  next
    case (nokeys k)
    from Cons.IH[OF nokeys(2) inv_first_fail[OF Cons.prems(2) lt]] Cons.prems(3,4)
    show ?thesis by simp
  next
    case (raises k)
    from Cons.IH[OF raises(3) inv_first_raise[OF Cons.prems(2) lt raises(1)]] Cons.prems(3,4)
    show ?thesis by simp
  next
    case (ok k)
    from inv_first_ok[OF Cons.prems(2) lt ok(2) Cons.prems(3)]
    show ?thesis unfolding ok(5) by auto
  qed
qed

lemma submit_next_file_inv:
  assumes "submit_next_file c e fq s = (b, s')" "inv_first c (length fq) s"
    "int (length (pending_futures s)) < num_workers c"
  shows "inv_first c (length fq) s' \<and> set (pending_futures s) \<subseteq> set (pending_futures s')"
proof -
  from assms(2) have "file_queue_index s + length (drop (file_queue_index s) fq) \<le> length fq"
    by (simp add: inv_first_def)
  from submit_from_inv[OF assms(1)[unfolded submit_next_file_def] assms(2,3) this]
  show ?thesis .
qed

lemma prefill_inv:
  "inv_first c (length fq) s \<Longrightarrow> inv_first c (length fq) (prefill c e fq s)"
proof (induction c e fq s rule: prefill.induct)
  case (1 c e fq s)
  show ?case
  proof (cases "int (length (pending_futures s)) < num_workers c")
    case False
    with 1 show ?thesis by (subst prefill.simps) simp
  next
    case lt: True
    obtain b1 s1 where ss: "should_stop c s = (b1, s1)" by (cases "should_stop c s")
    then have s1: "s1 = s\<lparr>clock := clock s + 1\<rparr>" by (rule should_stop_eq)
    show ?thesis
    proof (cases b1)
      case True
      with lt ss s1 1 show ?thesis by (subst prefill.simps) simp
    next
      case nb: False
      obtain b2 s2 where sub: "submit_next_file c e fq s1 = (b2, s2)"
        by (cases "submit_next_file c e fq s1")
      have i1: "inv_first c (length fq) s1" using 1(2) s1 by simp
      have "int (length (pending_futures s1)) < num_workers c" using lt s1 by simp
      from submit_next_file_inv[OF sub i1 this] have i2: "inv_first c (length fq) s2" by simp
      show ?thesis
      proof (cases b2)
        case False
        with lt ss nb sub i2 show ?thesis by (subst prefill.simps) simp
      next
        case True
        with 1(1)[OF lt ss[symmetric] _ sub[symmetric]] nb i2
        have "inv_first c (length fq) (prefill c e fq s2)" by simp
        with lt ss nb sub True show ?thesis by (subst prefill.simps) simp
      qed
    qed
  qed
qed

lemma rr_ok_handle_result [simp]: "rr_ok c (handle_result e f s) = rr_ok c s"
  by (simp add: rr_ok_def)

lemma pool_ok_handle_result [simp]: "pool_ok c (handle_result e f s) = pool_ok c s"
  by (simp add: pool_ok_def)

lemma handle_step:
  assumes "inv_first c n s" "f \<in> set (pending_futures s)"
  shows "inv_first c n (handle_result e f (s\<lparr>pending_futures := removeAll f (pending_futures s)\<rparr>))"
    and "int (length (pending_futures (handle_result e f (s\<lparr>pending_futures := removeAll f (pending_futures s)\<rparr>)))) < num_workers c"
proof -
  have less: "length (removeAll f (pending_futures s)) < length (pending_futures s)"
    using assms(2) by (rule length_removeAll_less)
  have "counted (s\<lparr>pending_futures := removeAll f (pending_futures s)\<rparr>) = counted s"
    by (simp add: counted_def)
  with less assms(1)
  show "inv_first c n (handle_result e f (s\<lparr>pending_futures := removeAll f (pending_futures s)\<rparr>))"
    by (simp add: inv_first_def handle_result_counted pool_ok_def)
  from less assms(1)
  show "int (length (pending_futures (handle_result e f (s\<lparr>pending_futures := removeAll f (pending_futures s)\<rparr>)))) < num_workers c"
    by (simp add: inv_first_def pool_ok_def)
qed

lemma for_done_inv:
  assumes "inv_first c (length fq) s" "distinct ds" "set ds \<subseteq> set (pending_futures s)"
  shows "inv_first c (length fq) (for_done c e fq ds s)"
  using assms
proof (induction ds arbitrary: s)
  case Nil then show ?case by simp
next
  case (Cons f ds)
  define s2 where "s2 = handle_result e f (s\<lparr>pending_futures := removeAll f (pending_futures s)\<rparr>)"
  have fin: "f \<in> set (pending_futures s)" using Cons.prems(3) by simp
  have i2: "inv_first c (length fq) s2" and lt2: "int (length (pending_futures s2)) < num_workers c"
    unfolding s2_def using handle_step[OF Cons.prems(1) fin] by blast+
  have sub2: "set ds \<subseteq> set (pending_futures s2)"
    using Cons.prems(2,3) unfolding s2_def by auto
  obtain b3 s3 where ss: "should_stop c s2 = (b3, s3)" by (cases "should_stop c s2")
  then have s3: "s3 = s2\<lparr>clock := clock s2 + 1\<rparr>" by (rule should_stop_eq)
  have i3: "inv_first c (length fq) s3" using i2 s3 by simp
  have sub3: "set ds \<subseteq> set (pending_futures s3)" using sub2 s3 by simp
  have d: "distinct ds" using Cons.prems(2) by simp
  show ?case
  proof (cases b3)
    case True
    have "for_done c e fq (f # ds) s = for_done c e fq ds s3"
      using ss True by (simp add: s2_def Let_def)
    then show ?thesis using Cons.IH[OF i3 d sub3] by simp
  next
    case False
    obtain b4 s4 where sub: "submit_next_file c e fq s3 = (b4, s4)"
      by (cases "submit_next_file c e fq s3")
    have "int (length (pending_futures s3)) < num_workers c" using lt2 s3 by simp
    from submit_next_file_inv[OF sub i3 this]
    have i4: "inv_first c (length fq) s4" and sub4: "set ds \<subseteq> set (pending_futures s4)"
      using sub3 by auto
    have "for_done c e fq (f # ds) s = for_done c e fq ds s4"
      using ss False sub by (simp add: s2_def Let_def)
    then show ?thesis using Cons.IH[OF i4 d sub4] by simp
  qed
qed

lemma sliding_window_inv:
  "inv_first c (length fq) s \<Longrightarrow> inv_first c (length fq) (snd (sliding_window c e fq ws s))"
proof (induction ws arbitrary: s)
  case Nil
  obtain b1 s1 where ss: "should_stop c s = (b1, s1)" by (cases "should_stop c s")
  then have s1: "s1 = s\<lparr>clock := clock s + 1\<rparr>" by (rule should_stop_eq)
  show ?case using Nil ss s1
    by (subst sliding_window.simps) (simp split: bool.splits)
next
  case (Cons w ws)
  obtain b1 s1 where ss: "should_stop c s = (b1, s1)" by (cases "should_stop c s")
  then have s1: "s1 = s\<lparr>clock := clock s + 1\<rparr>" by (rule should_stop_eq)
  obtain b2 s2 where ss2: "should_stop c s1 = (b2, s2)" by (cases "should_stop c s1")
  then have s2: "s2 = s1\<lparr>clock := clock s1 + 1\<rparr>" by (rule should_stop_eq)
  define ds where "ds = filter (\<lambda>f. f \<in> set (pending_futures s1)) (remdups w)"
  have i2: "inv_first c (length fq) s2" using Cons.prems s1 s2 by simp
  have "distinct ds" "set ds \<subseteq> set (pending_futures s2)" using s2 by (auto simp: ds_def)
  from for_done_inv[OF i2 this]
  have "inv_first c (length fq) (snd (sliding_window c e fq ws (for_done c e fq ds s2)))"
    by (rule Cons.IH)
  then show ?case using Cons.prems ss s1 ss2 s2 i2
    by (subst sliding_window.simps) (simp add: ds_def Let_def split: bool.splits)
qed

lemma cancel_remaining_inv:
  assumes "inv_first c n s"
  shows "pool_ok c (cancel_remaining c e s) \<and> rr_ok c (cancel_remaining c e s) \<and>
         counted (cancel_remaining c e s) \<le> int n"
proof -
  define r where "r = length (filter (\<lambda>f. \<not> done_on_cancel e f) (pending_futures s))"
  have "r \<le> length (pending_futures s)" by (simp add: r_def)
  with assms have le: "counted s + int r \<le> int n" by (simp add: inv_first_def)
  from assms have ok: "pool_ok c s" "rr_ok c s" "counted s \<le> int n" by (simp_all add: inv_first_def)
  have "cancel_remaining c e s = s\<lparr>clock := clock s + 1\<rparr> \<or>
        cancel_remaining c e s = s\<lparr>clock := clock s + 1, force_stop := True\<rparr> \<or>
        cancel_remaining c e s = s\<lparr>clock := clock s + 1, force_stop := True,
            stopped_count := stopped_count s + int r, completed_count := completed_count s + int r\<rparr>"
    by (cases "stops c (clock s) \<or> force_stop s")
       (simp_all add: cancel_remaining_def should_stop_def Let_def r_def)
  then show ?thesis
  proof (elim disjE)
    assume "cancel_remaining c e s = s\<lparr>clock := clock s + 1, force_stop := True,
            stopped_count := stopped_count s + int r, completed_count := completed_count s + int r\<rparr>"
    then show ?thesis using ok le by (simp add: counted_def)
  qed (use ok in simp_all)
qed

lemma first_pass_inv:
  assumes "inv_first c (length fq) s" "first_pass c e fq s = (b, s')"
  shows "pool_ok c s' \<and> rr_ok c s' \<and> counted s' \<le> int (length fq)"
proof -
  obtain b1 s1 where sw: "sliding_window c e fq (waits e) (prefill c e fq s) = (b1, s1)"
    by (cases "sliding_window c e fq (waits e) (prefill c e fq s)")
  have i1: "inv_first c (length fq) s1"
    using sliding_window_inv[OF prefill_inv[OF assms(1), of e], of e "waits e"] sw by simp
  show ?thesis
  proof (cases b1)
    case True
    with sw assms(2) have "s' = cancel_remaining c e s1" by (simp add: first_pass_def)
    with cancel_remaining_inv[OF i1] show ?thesis by simp
  next
    case False
    with sw assms(2) have "s' = s1" by (simp add: first_pass_def)
    with i1 show ?thesis by (simp add: inv_first_def)
  qed
qed

text \<open>
  In a retry round \<open>skipped_count\<close>, \<open>stopped_count\<close> and the sum of \<open>processed_count\<close> and
  \<open>failed_count\<close> stay what they were: a success moves one job from \<open>failed_count\<close> to
  \<open>processed_count\<close>, and nothing else touches the four counters.
\<close>

definition tally :: "bstate \<Rightarrow> int \<times> int \<times> int" where
  "tally s = (processed_count s + failed_count s, skipped_count s, stopped_count s)"

lemma tally_upd [simp]:
  "tally (s\<lparr>completed_count := v0\<rparr>) = tally s"
  "tally (s\<lparr>failed_files := v1\<rparr>) = tally s"
  "tally (s\<lparr>processed_files := v2\<rparr>) = tally s"
  "tally (s\<lparr>current_api_key_index := v3\<rparr>) = tally s"
  "tally (s\<lparr>file_queue_index := v4\<rparr>) = tally s"
  "tally (s\<lparr>pending_futures := v5\<rparr>) = tally s"
  "tally (s\<lparr>retry_processed := v6\<rparr>) = tally s"
  "tally (s\<lparr>retry_failed := v7\<rparr>) = tally s"
  "tally (s\<lparr>retry_stopped := v8\<rparr>) = tally s"
  "tally (s\<lparr>retry_processed_files := v9\<rparr>) = tally s"
  "tally (s\<lparr>current_retry_failed_files := v10\<rparr>) = tally s"
  "tally (s\<lparr>retry_pending := v11\<rparr>) = tally s"
  "tally (s\<lparr>retry_queue_index := v12\<rparr>) = tally s"
  "tally (s\<lparr>force_stop := v13\<rparr>) = tally s"
  "tally (s\<lparr>clock := v14\<rparr>) = tally s"
  "tally (s\<lparr>submissions := v15\<rparr>) = tally s"
  "tally (s\<lparr>peak := v16\<rparr>) = tally s"
  by (simp_all add: tally_def)

definition inv_retry :: "config \<Rightarrow> int \<times> int \<times> int \<Rightarrow> bstate \<Rightarrow> bool" where
  "inv_retry c k s \<longleftrightarrow> pool_ok c s \<and> rr_ok c s \<and> tally s = k"

lemma inv_retry_clock [simp]: "inv_retry c k (s\<lparr>clock := n\<rparr>) = inv_retry c k s"
  by (simp add: inv_retry_def)

lemma handle_retry_result_tally: "tally (handle_retry_result e f s) = tally s"
  by (simp add: handle_retry_result_def tally_def Let_def split: outcome.splits prod.splits)

lemma handle_retry_result_frame [simp]:
  "pending_futures (handle_retry_result e f s) = pending_futures s"
  "retry_pending (handle_retry_result e f s) = retry_pending s"
  "peak (handle_retry_result e f s) = peak s"
  "submissions (handle_retry_result e f s) = submissions s"
  "current_api_key_index (handle_retry_result e f s) = current_api_key_index s"
  "force_stop (handle_retry_result e f s) = force_stop s"
  "clock (handle_retry_result e f s) = clock s"
  by (simp_all add: handle_retry_result_def Let_def split: outcome.splits prod.splits)

lemma rr_ok_handle_retry_result [simp]: "rr_ok c (handle_retry_result e f s) = rr_ok c s"
  by (simp add: rr_ok_def)

lemma pool_ok_handle_retry_result [simp]: "pool_ok c (handle_retry_result e f s) = pool_ok c s"
  by (simp add: pool_ok_def)

lemma inv_retry_skip:
  "inv_retry c k s \<Longrightarrow> inv_retry c k (s\<lparr>retry_queue_index := i\<rparr>)"
  by (simp add: inv_retry_def)

lemma inv_retry_fail:
  "inv_retry c k s \<Longrightarrow>
   inv_retry c k (s\<lparr>retry_queue_index := i, clock := n,
       retry_failed := x, current_retry_failed_files := y\<rparr>)"
  by (simp add: inv_retry_def)

lemma inv_retry_raise:
  assumes "inv_retry c k s" "api_keys c \<noteq> []"
  shows "inv_retry c k (s\<lparr>retry_queue_index := i, clock := n,
               current_api_key_index := (current_api_key_index s + 1) mod length (api_keys c),
               submissions := submissions s @ [(p, api_keys c ! (current_api_key_index s mod length (api_keys c)))],
               retry_failed := x, current_retry_failed_files := y\<rparr>)"
    (is "inv_retry c k ?s")
proof -
  have "rr_ok c s" using assms(1) by (simp add: inv_retry_def)
  then have "rr_ok c ?s" using assms(2) by (rule rr_ok_step) simp_all
  then show ?thesis using assms(1) by (simp add: inv_retry_def pool_ok_def)
qed

lemma inv_retry_ok:
  assumes "inv_retry c k s" "api_keys c \<noteq> []"
    "int (length (retry_pending s)) < num_workers c"
  shows "inv_retry c k (s\<lparr>retry_queue_index := i, clock := n,
               current_api_key_index := (current_api_key_index s + 1) mod length (api_keys c),
               submissions := submissions s @ [(p, api_keys c ! (current_api_key_index s mod length (api_keys c)))],
               retry_pending := retry_pending s @ [p],
               retry_processed_files := insert p (retry_processed_files s),
               peak := max (peak s) (length (retry_pending s) + 1)\<rparr>)"
    (is "inv_retry c k ?s")
proof -
  have "rr_ok c s" using assms(1) by (simp add: inv_retry_def)
  then have "rr_ok c ?s" using assms(2) by (rule rr_ok_step) simp_all
  then show ?thesis using assms(1,3) by (simp add: inv_retry_def pool_ok_def max_def)
qed

lemma submit_retry_from_inv:
  assumes "submit_retry_from c e q s = (b, s')" "inv_retry c k s"
    "int (length (retry_pending s)) < num_workers c"
  shows "inv_retry c k s' \<and> set (retry_pending s) \<subseteq> set (retry_pending s')"
  using assms
proof (induction q arbitrary: s)
  case Nil then show ?case by simp
next
  case (Cons p q)
  from Cons.prems(1) show ?case
  proof (cases rule: submit_retry_from_Cons_cases)
    case skip
    from Cons.IH[OF skip(2) inv_retry_skip[OF Cons.prems(2)]] Cons.prems(3)
    show ?thesis by simp
  next
    case (stopped n)
    from inv_retry_skip[OF Cons.prems(2)] show ?thesis unfolding stopped(2) by simp
  next
    case (nokeys n)
    from Cons.IH[OF nokeys(2) inv_retry_fail[OF Cons.prems(2)]] Cons.prems(3)
    show ?thesis by simp
  next
    case (raises n)
    from Cons.IH[OF raises(3) inv_retry_raise[OF Cons.prems(2) raises(1)]] Cons.prems(3)
    show ?thesis by simp
  next
    case (ok n)
    from inv_retry_ok[OF Cons.prems(2) ok(2) Cons.prems(3)]
    show ?thesis unfolding ok(5) by auto
  qed
qed

lemma submit_retry_file_inv:
  assumes "submit_retry_file c e rf s = (b, s')" "inv_retry c k s"
    "int (length (retry_pending s)) < num_workers c"
  shows "inv_retry c k s' \<and> set (retry_pending s) \<subseteq> set (retry_pending s')"
  using submit_retry_from_inv[OF assms(1)[unfolded submit_retry_file_def] assms(2,3)] .

lemma retry_prefill_inv:
  "inv_retry c k s \<Longrightarrow> inv_retry c k (retry_prefill c e rf s)"
proof (induction c e rf s rule: retry_prefill.induct)
  case (1 c e rf s)
  show ?case
  proof (cases "int (length (retry_pending s)) < num_workers c")
    case False
    with 1 show ?thesis by (subst retry_prefill.simps) simp
  next
    case lt: True
    obtain b1 s1 where ss: "should_stop c s = (b1, s1)" by (cases "should_stop c s")
    then have s1: "s1 = s\<lparr>clock := clock s + 1\<rparr>" by (rule should_stop_eq)
    show ?thesis
    proof (cases b1)
      case True
      with lt ss s1 1 show ?thesis by (subst retry_prefill.simps) simp
    next
      case nb: False
      obtain b2 s2 where sub: "submit_retry_file c e rf s1 = (b2, s2)"
        by (cases "submit_retry_file c e rf s1")
      have i1: "inv_retry c k s1" using 1(2) s1 by simp
      have "int (length (retry_pending s1)) < num_workers c" using lt s1 by simp
      from submit_retry_file_inv[OF sub i1 this] have i2: "inv_retry c k s2" by simp
      show ?thesis
      proof (cases b2)
        case False
        with lt ss nb sub i2 show ?thesis by (subst retry_prefill.simps) simp
      next
        case True
        with 1(1)[OF lt ss[symmetric] _ sub[symmetric]] nb i2
        have "inv_retry c k (retry_prefill c e rf s2)" by simp
        with lt ss nb sub True show ?thesis by (subst retry_prefill.simps) simp
      qed
    qed
  qed
qed

lemma handle_retry_step:
  assumes "inv_retry c k s" "f \<in> set (retry_pending s)"
  shows "inv_retry c k (handle_retry_result e f (s\<lparr>retry_pending := removeAll f (retry_pending s)\<rparr>))"
    and "int (length (retry_pending (handle_retry_result e f (s\<lparr>retry_pending := removeAll f (retry_pending s)\<rparr>)))) < num_workers c"
proof -
  have less: "length (removeAll f (retry_pending s)) < length (retry_pending s)"
    using assms(2) by (rule length_removeAll_less)
  from less assms(1)
  show "inv_retry c k (handle_retry_result e f (s\<lparr>retry_pending := removeAll f (retry_pending s)\<rparr>))"
    by (simp add: inv_retry_def handle_retry_result_tally pool_ok_def)
  from less assms(1)
  show "int (length (retry_pending (handle_retry_result e f (s\<lparr>retry_pending := removeAll f (retry_pending s)\<rparr>)))) < num_workers c"
    by (simp add: inv_retry_def pool_ok_def)
qed

lemma retry_for_done_inv:
  assumes "inv_retry c k s" "distinct ds" "set ds \<subseteq> set (retry_pending s)"
  shows "inv_retry c k (retry_for_done c e rf ds s)"
  using assms
proof (induction ds arbitrary: s)
  case Nil then show ?case by simp
next
  case (Cons f ds)
  define s2 where "s2 = handle_retry_result e f (s\<lparr>retry_pending := removeAll f (retry_pending s)\<rparr>)"
  have fin: "f \<in> set (retry_pending s)" using Cons.prems(3) by simp
  have i2: "inv_retry c k s2" and lt2: "int (length (retry_pending s2)) < num_workers c"
    unfolding s2_def using handle_retry_step[OF Cons.prems(1) fin] by blast+
  have sub2: "set ds \<subseteq> set (retry_pending s2)"
    using Cons.prems(2,3) unfolding s2_def by auto
  obtain b3 s3 where ss: "should_stop c s2 = (b3, s3)" by (cases "should_stop c s2")
  then have s3: "s3 = s2\<lparr>clock := clock s2 + 1\<rparr>" by (rule should_stop_eq)
  have i3: "inv_retry c k s3" using i2 s3 by simp
  have sub3: "set ds \<subseteq> set (retry_pending s3)" using sub2 s3 by simp
  have d: "distinct ds" using Cons.prems(2) by simp
  show ?case
  proof (cases b3)
    case True
    have "retry_for_done c e rf (f # ds) s = retry_for_done c e rf ds s3"
      using ss True by (simp add: s2_def Let_def)
    then show ?thesis using Cons.IH[OF i3 d sub3] by simp
  next
    case False
    obtain b4 s4 where sub: "submit_retry_file c e rf s3 = (b4, s4)"
      by (cases "submit_retry_file c e rf s3")
    have "int (length (retry_pending s3)) < num_workers c" using lt2 s3 by simp
    from submit_retry_file_inv[OF sub i3 this]
    have i4: "inv_retry c k s4" and sub4: "set ds \<subseteq> set (retry_pending s4)"
      using sub3 by auto
    have "retry_for_done c e rf (f # ds) s = retry_for_done c e rf ds s4"
      using ss False sub by (simp add: s2_def Let_def)
    then show ?thesis using Cons.IH[OF i4 d sub4] by simp
  qed
qed

lemma retry_window_inv:
  "inv_retry c k s \<Longrightarrow> inv_retry c k (snd (retry_window c e rf ws s))"
proof (induction ws arbitrary: s)
  case Nil
  obtain b1 s1 where ss: "should_stop c s = (b1, s1)" by (cases "should_stop c s")
  then have s1: "s1 = s\<lparr>clock := clock s + 1\<rparr>" by (rule should_stop_eq)
  show ?case using Nil ss s1
    by (subst retry_window.simps) (simp split: bool.splits)
next
  case (Cons w ws)
  obtain b1 s1 where ss: "should_stop c s = (b1, s1)" by (cases "should_stop c s")
  then have s1: "s1 = s\<lparr>clock := clock s + 1\<rparr>" by (rule should_stop_eq)
  obtain b2 s2 where ss2: "should_stop c s1 = (b2, s2)" by (cases "should_stop c s1")
  then have s2: "s2 = s1\<lparr>clock := clock s1 + 1\<rparr>" by (rule should_stop_eq)
  define ds where "ds = filter (\<lambda>f. f \<in> set (retry_pending s1)) (remdups w)"
  have i2: "inv_retry c k s2" using Cons.prems s1 s2 by simp
  have "distinct ds" "set ds \<subseteq> set (retry_pending s2)" using s2 by (auto simp: ds_def)
  from retry_for_done_inv[OF i2 this]
  have "inv_retry c k (snd (retry_window c e rf ws (retry_for_done c e rf ds s2)))"
    by (rule Cons.IH)
  then show ?case using Cons.prems ss s1 ss2 s2 i2
    by (subst retry_window.simps) (simp add: ds_def Let_def split: bool.splits)
qed

lemma start_round_inv: "inv_retry c k s \<Longrightarrow> inv_retry c k (start_round s)"
  by (simp add: start_round_def inv_retry_def pool_ok_def)

lemma retry_round_inv:
  "inv_retry c k s \<Longrightarrow> inv_retry c k (snd (retry_round c e rf s))"
proof -
  assume a: "inv_retry c k s"
  obtain b1 s1 where rw: "retry_window c e rf (waits e) (retry_prefill c e rf (start_round s)) = (b1, s1)"
    by (cases "retry_window c e rf (waits e) (retry_prefill c e rf (start_round s))")
  have "inv_retry c k s1"
    using retry_window_inv[OF retry_prefill_inv[OF start_round_inv[OF a], of e rf], of e rf "waits e"] rw
    by simp
  then show ?thesis using rw
    by (cases b1) (simp_all add: retry_round_def retry_cancel_def should_stop_def)
qed

lemma retry_loop_inv:
  "inv_retry c k s \<Longrightarrow> inv_retry c k (snd (retry_loop c envs rf s))"
proof (induction envs arbitrary: rf s)
  case Nil
  then show ?case
    by (subst retry_loop.simps) (simp add: should_stop_def split: bool.splits)
next
  case (Cons e envs)
  let ?s1 = "s\<lparr>clock := clock s + 1\<rparr>"
  have i1: "inv_retry c k ?s1" using Cons.prems by simp
  obtain b2 s2 where rr: "retry_round c e rf ?s1 = (b2, s2)" by (cases "retry_round c e rf ?s1")
  have i2: "inv_retry c k s2" using retry_round_inv[OF i1, of e rf] rr by simp
  from Cons.IH[OF i2] i1 i2 rr Cons.prems show ?case
    by (subst retry_loop.simps) (simp add: should_stop_def Let_def split: bool.splits)
qed

lemma retry_phase_inv:
  "inv_retry c k s \<Longrightarrow> inv_retry c k (snd (retry_phase c e0 envs s))"
  using retry_loop_inv[of c k "s\<lparr>clock := clock s + 1\<rparr>" envs "initial_retry_files e0 (failed_files s)"]
  by (simp add: retry_phase_def should_stop_def split: bool.splits)

section \<open>Properties of a whole run\<close>

text \<open>A run with two credentials and two workers, never cancelled, for the examples.\<close>

definition two_keys :: config where
  "two_keys = \<lparr>api_keys = [''k0'', ''k1''], num_workers = 2, auto_retry_enabled = False,
               stops = (\<lambda>t. False)\<rparr>"

lemma initial_inv_first:
  "0 \<le> num_workers c \<Longrightarrow> inv_first c n (snd (should_stop c initial_state))"
  by (simp add: should_stop_def initial_state_def inv_first_def pool_ok_def rr_ok_def counted_def)

lemma run_passes_inv:
  assumes "inv_first c (length fq) s"
  shows "pool_ok c (snd (run_passes c e0 envs fq s)) \<and> rr_ok c (snd (run_passes c e0 envs fq s)) \<and>
         counted (snd (run_passes c e0 envs fq s)) \<le> int (length fq)"
proof -
  obtain b s1 where fp: "first_pass c e0 fq s = (b, s1)" by (cases "first_pass c e0 fq s")
  from first_pass_inv[OF assms fp]
  have ok1: "pool_ok c s1" "rr_ok c s1" "counted s1 \<le> int (length fq)" by simp_all
  show ?thesis
  proof (cases b)
    case False
    with fp ok1 show ?thesis by (simp add: run_passes_def)
  next
    case True
    have "inv_retry c (tally s1) s1" using ok1 by (simp add: inv_retry_def)
    from retry_phase_inv[OF this, of e0 envs] ok1(3) fp True
    show ?thesis by (simp add: run_passes_def inv_retry_def counted_def tally_def)
  qed
qed

lemma no_pool_no_submissions:
  assumes "num_workers c \<le> 0"
  shows "submissions (snd (run_passes c e0 envs fq (snd (should_stop c initial_state)))) = []"
proof -
  let ?s0 = "snd (should_stop c initial_state)"
  have p: "prefill c e0 fq ?s0 = ?s0"
    using assms by (subst prefill.simps) (simp add: should_stop_def initial_state_def)
  have w: "sliding_window c e0 fq (waits e0) ?s0 = (True, ?s0)"
    by (subst sliding_window.simps) (simp add: should_stop_def initial_state_def)
  show ?thesis
    by (simp add: run_passes_def first_pass_def p w)
       (simp add: cancel_remaining_def retry_phase_def should_stop_def initial_state_def Let_def
             split: bool.splits)
qed

text \<open>
  C7. When the pool exists (\<open>num_workers > 0\<close>; otherwise the run ends on the fatal path
  before any submission), the largest number of futures that were ever pending at the
  same time, in the first pass and in every retry round, is at most \<open>num_workers\<close>, whatever
  the workers return, whenever they finish and whenever the run is cancelled; this holds
  for every state the run can be in after a call of \<open>wait\<close>, since the scripts \<open>waits\<close>
  and \<open>envs\<close> may end at any point.
\<close>

theorem in_flight_never_exceeds_workers:
  assumes "0 < num_workers c"
    and "s = snd (run_passes c e0 envs file_queue (snd (should_stop c initial_state)))"
  shows "int (peak s) \<le> num_workers c \<and>
         length (pending_futures s) \<le> peak s \<and> length (retry_pending s) \<le> peak s"
proof -
  from assms(1) have "inv_first c (length file_queue) (snd (should_stop c initial_state))"
    by (intro initial_inv_first) simp
  from run_passes_inv[OF this, of e0 envs] assms(2) show ?thesis by (simp add: pool_ok_def)
qed

text \<open>Three files, two workers: the pool is full with two jobs, and never has three.\<close>

theorem in_flight_never_exceeds_workers_witness:
  "0 < num_workers two_keys \<and>
   peak (snd (run_passes two_keys (calm [[''a''], [''b''], [''c'']]) [] [''a'', ''b'', ''c'']
               (snd (should_stop two_keys initial_state)))) = 2 \<and>
   int (peak (snd (run_passes two_keys (calm [[''a''], [''b''], [''c'']]) [] [''a'', ''b'', ''c'']
               (snd (should_stop two_keys initial_state))))) \<le> num_workers two_keys"
proof -
  have h: "0 < num_workers two_keys" by (simp add: two_keys_def)
  have "peak (snd (run_passes two_keys (calm [[''a''], [''b''], [''c'']]) [] [''a'', ''b'', ''c'']
               (snd (should_stop two_keys initial_state)))) = 2"
    by code_simp
  with h in_flight_never_exceeds_workers[OF h refl, of "calm [[''a''], [''b''], [''c'']]" "[]" "[''a'', ''b'', ''c'']"]
  show ?thesis by simp
qed

text \<open>
  C8. Over a whole run (first pass, then the retry rounds, which share
  \<open>current_api_key_index\<close>), the \<open>k\<close>-th call of \<open>executor.submit\<close>, counted from 0, passes
  the single credential \<open>api_keys[k mod len(api_keys)]\<close>, whatever the outcomes of the jobs.
  A call of \<open>executor.submit\<close> that raises counts as a submission: the index was advanced
  before it.
\<close>

theorem credentials_round_robin:
  assumes "s = snd (run_passes c e0 envs file_queue (snd (should_stop c initial_state)))"
    and "k < length (submissions s)"
  shows "snd (submissions s ! k) = api_keys c ! (k mod length (api_keys c))"
proof (cases "0 \<le> num_workers c")
  case True
  then have "inv_first c (length file_queue) (snd (should_stop c initial_state))"
    by (rule initial_inv_first)
  from run_passes_inv[OF this, of e0 envs] assms show ?thesis by (simp add: rr_ok_def)
next
  case False
  then have "num_workers c \<le> 0" by simp
  from no_pool_no_submissions[OF this, of e0 envs file_queue] assms show ?thesis by simp
qed

text \<open>Three files and two credentials: the third job gets the first credential again.\<close>

theorem credentials_round_robin_witness:
  "submissions (snd (run_passes two_keys (calm [[''a''], [''b''], [''c'']]) [] [''a'', ''b'', ''c'']
               (snd (should_stop two_keys initial_state))))
     = [(''a'', ''k0''), (''b'', ''k1''), (''c'', ''k0'')] \<and>
   (2::nat) < length (submissions (snd (run_passes two_keys (calm [[''a''], [''b''], [''c'']]) []
               [''a'', ''b'', ''c''] (snd (should_stop two_keys initial_state))))) \<and>
   snd (submissions (snd (run_passes two_keys (calm [[''a''], [''b''], [''c'']]) []
               [''a'', ''b'', ''c''] (snd (should_stop two_keys initial_state)))) ! 2)
     = api_keys two_keys ! (2 mod length (api_keys two_keys))"
proof -
  have e: "submissions (snd (run_passes two_keys (calm [[''a''], [''b''], [''c'']]) [] [''a'', ''b'', ''c'']
               (snd (should_stop two_keys initial_state))))
     = [(''a'', ''k0''), (''b'', ''k1''), (''c'', ''k0'')]"
    by code_simp
  then have l: "(2::nat) < length (submissions (snd (run_passes two_keys (calm [[''a''], [''b''], [''c'']]) []
               [''a'', ''b'', ''c''] (snd (should_stop two_keys initial_state)))))"
    by simp
  from credentials_round_robin[OF refl l] e l show ?thesis by blast
qed

section \<open>A first pass that is never cancelled\<close>

text \<open>
  When no evaluation of \<open>should_stop()\<close> is true, the queue has no path twice and every
  path exists when it is taken from the queue, each path taken is either pending or
  counted once (\<open>inv_eq\<close>), and the pool is empty only when the queue is exhausted.
\<close>

definition inv_eq :: "path list \<Rightarrow> bstate \<Rightarrow> bool" where
  "inv_eq fq s \<longleftrightarrow>
     counted s + int (length (pending_futures s)) = int (file_queue_index s) \<and>
     file_queue_index s \<le> length fq \<and> \<not> force_stop s \<and>
     processed_files s \<subseteq> set (take (file_queue_index s) fq) \<and>
     distinct (pending_futures s) \<and> set (pending_futures s) \<subseteq> processed_files s"

lemma inv_eq_clock [simp]: "inv_eq fq (s\<lparr>clock := n\<rparr>) = inv_eq fq s"
  by (simp add: inv_eq_def)

lemma take_Suc_set: "i < length fq \<Longrightarrow> set (take (Suc i) fq) = insert (fq ! i) (set (take i fq))"
  by (simp add: take_Suc_conv_app_nth)

lemma inv_eq_fail:
  assumes "inv_eq fq s" "file_queue_index s < length fq"
  shows "inv_eq fq (s\<lparr>file_queue_index := file_queue_index s + 1, clock := n,
       failed_count := failed_count s + 1, completed_count := completed_count s + 1\<rparr>)"
  using assms by (auto simp: inv_eq_def counted_def take_Suc_set)

lemma inv_eq_raise:
  assumes "inv_eq fq s" "file_queue_index s < length fq"
  shows "inv_eq fq (s\<lparr>file_queue_index := file_queue_index s + 1, clock := n,
               current_api_key_index := x, submissions := y,
               failed_count := failed_count s + 1, completed_count := completed_count s + 1\<rparr>)"
  using assms by (auto simp: inv_eq_def counted_def take_Suc_set)

lemma inv_eq_ok:
  assumes "inv_eq fq s" "file_queue_index s < length fq" "distinct fq"
  shows "inv_eq fq (s\<lparr>file_queue_index := file_queue_index s + 1, clock := n,
               current_api_key_index := x, submissions := y,
               pending_futures := pending_futures s @ [fq ! file_queue_index s],
               processed_files := insert (fq ! file_queue_index s) (processed_files s),
               peak := z\<rparr>)"
proof -
  let ?i = "file_queue_index s"
  have "fq ! ?i \<notin> set (take ?i fq)"
  proof
    assume "fq ! ?i \<in> set (take ?i fq)"
    then obtain j where "j < ?i" "fq ! j = fq ! ?i"
      using assms(2) by (auto simp: in_set_conv_nth)
    with assms(2,3) show False by (simp add: nth_eq_iff_index_eq)
  qed
  with assms(1) have "fq ! ?i \<notin> processed_files s" by (auto simp: inv_eq_def)
  with assms(1,2) show ?thesis by (auto simp: inv_eq_def counted_def take_Suc_set)
qed

lemma submit_from_eq:
  assumes ns: "\<forall>t. \<not> stops c t" and d: "distinct fq" and ex: "\<forall>p\<in>set fq. exists_on_dequeue e p"
  shows "submit_from c e q s = (b, s') \<Longrightarrow> q = drop (file_queue_index s) fq \<Longrightarrow> inv_eq fq s \<Longrightarrow>
         inv_eq fq s' \<and> (\<not> b \<longrightarrow> file_queue_index s' = length fq) \<and>
         (b \<longrightarrow> pending_futures s' \<noteq> []) \<and> set (pending_futures s) \<subseteq> set (pending_futures s')"
proof (induction q arbitrary: s)
  case Nil
  then show ?case by (auto simp: inv_eq_def)
next
  case (Cons p q)
  let ?i = "file_queue_index s"
  from Cons.prems(2) have lt: "?i < length fq" by (cases "?i < length fq") auto
  from Cons.prems(2) have "fq ! ?i # drop (Suc ?i) fq = p # q"
    using Cons_nth_drop_Suc[OF lt] by simp
  then have p: "p = fq ! ?i" and q: "q = drop (Suc ?i) fq" by simp_all
  have pex: "exists_on_dequeue e p" using ex lt p by simp
  have "p \<notin> set (take ?i fq)"
  proof
    assume "p \<in> set (take ?i fq)"
    then obtain j where "j < ?i" "fq ! j = p" using lt by (auto simp: in_set_conv_nth)
    with lt d p show False by (simp add: nth_eq_iff_index_eq)
  qed
  with Cons.prems(3) have pnew: "p \<notin> processed_files s" by (auto simp: inv_eq_def)
  have nf: "\<not> force_stop s" using Cons.prems(3) by (simp add: inv_eq_def)
  from Cons.prems(1) show ?case
  proof (cases rule: submit_from_Cons_cases)
    case skip
    with pex pnew show ?thesis by simp
  next
    case (stopped n)
    with ns nf show ?thesis by simp
  next
    case (nokeys n)
    from Cons.IH[OF nokeys(2) _ inv_eq_fail[OF Cons.prems(3) lt]] q show ?thesis by simp
  next
    case (raises n)
    from Cons.IH[OF raises(3) _ inv_eq_raise[OF Cons.prems(3) lt]] q show ?thesis by simp
  next
    case (ok n)
    from inv_eq_ok[OF Cons.prems(3) lt d] ok(1) show ?thesis unfolding ok(5) p by auto
  qed
qed

lemma submit_next_file_eq:
  assumes "\<forall>t. \<not> stops c t" "distinct fq" "\<forall>p\<in>set fq. exists_on_dequeue e p"
    "submit_next_file c e fq s = (b, s')" "inv_eq fq s"
  shows "inv_eq fq s' \<and> (\<not> b \<longrightarrow> file_queue_index s' = length fq) \<and>
         (b \<longrightarrow> pending_futures s' \<noteq> []) \<and> set (pending_futures s) \<subseteq> set (pending_futures s')"
  using submit_from_eq[OF assms(1-3) assms(4)[unfolded submit_next_file_def] refl assms(5)] .

lemma handle_result_eq:
  assumes "inv_eq fq s" "f \<in> set (pending_futures s)"
  shows "inv_eq fq (handle_result e f (s\<lparr>pending_futures := removeAll f (pending_futures s)\<rparr>))"
proof -
  have d: "distinct (pending_futures s)" using assms(1) by (simp add: inv_eq_def)
  have "length (pending_futures s) > 0" using assms(2) by (cases "pending_futures s") auto
  moreover have "length (removeAll f (pending_futures s)) = length (pending_futures s) - 1"
    using assms(2) d by (simp add: distinct_remove1_removeAll[symmetric] length_remove1)
  ultimately have len: "int (length (removeAll f (pending_futures s))) = int (length (pending_futures s)) - 1"
    by (cases "pending_futures s") simp_all
  have dr: "distinct (removeAll f (pending_futures s))" using d by (rule distinct_removeAll)
  have "counted (s\<lparr>pending_futures := removeAll f (pending_futures s)\<rparr>) = counted s"
    by (simp add: counted_def)
  with len dr assms(1) show ?thesis
    by (auto simp: inv_eq_def handle_result_counted)
qed

lemma prefill_eq:
  assumes ns: "\<forall>t. \<not> stops c t" and d: "distinct fq" and ex: "\<forall>p\<in>set fq. exists_on_dequeue e p"
    and w: "0 < num_workers c"
  shows "inv_eq fq s \<Longrightarrow>
         inv_eq fq (prefill c e fq s) \<and>
         (pending_futures (prefill c e fq s) = [] \<longrightarrow> file_queue_index (prefill c e fq s) = length fq)"
  using ns d ex w
proof (induction c e fq s rule: prefill.induct)
  case (1 c e fq s)
  note ns = "1.prems"(2) and d = "1.prems"(3) and ex = "1.prems"(4) and w = "1.prems"(5)
  have nf: "\<not> force_stop s" using "1.prems"(1) by (simp add: inv_eq_def)
  show ?case
  proof (cases "int (length (pending_futures s)) < num_workers c")
    case False
    with w have "pending_futures s \<noteq> []" by auto
    with False "1.prems"(1) show ?thesis by (subst (1 2 3) prefill.simps) simp
  next
    case lt: True
    let ?s1 = "s\<lparr>clock := clock s + 1\<rparr>"
    have ss: "should_stop c s = (False, ?s1)" using ns nf by (simp add: should_stop_def)
    obtain b2 s2 where sub: "submit_next_file c e fq ?s1 = (b2, s2)"
      by (cases "submit_next_file c e fq ?s1")
    have i1: "inv_eq fq ?s1" using "1.prems"(1) by simp
    from submit_next_file_eq[OF ns d ex sub i1]
    have i2: "inv_eq fq s2" and e2: "\<not> b2 \<longrightarrow> file_queue_index s2 = length fq" by simp_all
    show ?thesis
    proof (cases b2)
      case False
      with lt ss sub i2 e2 show ?thesis by (subst (1 2 3) prefill.simps) simp
    next
      case True
      from sub True have sub': "submit_next_file c e fq ?s1 = (True, s2)" by simp
      from "1.IH"[OF lt ss[symmetric] refl sub'[symmetric] refl i2 ns d ex w]
      have "inv_eq fq (prefill c e fq s2) \<and>
         (pending_futures (prefill c e fq s2) = [] \<longrightarrow> file_queue_index (prefill c e fq s2) = length fq)"
        by simp
      with lt ss sub True show ?thesis by (subst (1 2 3) prefill.simps) simp
    qed
  qed
qed

lemma for_done_eq:
  assumes ns: "\<forall>t. \<not> stops c t" and d: "distinct fq" and ex: "\<forall>p\<in>set fq. exists_on_dequeue e p"
  shows "inv_eq fq s \<Longrightarrow> (pending_futures s = [] \<longrightarrow> file_queue_index s = length fq) \<Longrightarrow>
         distinct ds \<Longrightarrow> set ds \<subseteq> set (pending_futures s) \<Longrightarrow>
         inv_eq fq (for_done c e fq ds s) \<and>
         (pending_futures (for_done c e fq ds s) = [] \<longrightarrow>
            file_queue_index (for_done c e fq ds s) = length fq)"
proof (induction ds arbitrary: s)
  case Nil then show ?case by simp
next
  case (Cons f ds)
  define s2 where "s2 = handle_result e f (s\<lparr>pending_futures := removeAll f (pending_futures s)\<rparr>)"
  have fin: "f \<in> set (pending_futures s)" using Cons.prems(4) by simp
  have i2: "inv_eq fq s2" unfolding s2_def by (rule handle_result_eq[OF Cons.prems(1) fin])
  have sub2: "set ds \<subseteq> set (pending_futures s2)"
    using Cons.prems(3,4) unfolding s2_def by auto
  let ?s3 = "s2\<lparr>clock := clock s2 + 1\<rparr>"
  have nf: "\<not> force_stop s2" using i2 by (simp add: inv_eq_def)
  have ss: "should_stop c s2 = (False, ?s3)" using ns nf by (simp add: should_stop_def)
  have i3: "inv_eq fq ?s3" using i2 by simp
  obtain b4 s4 where sub: "submit_next_file c e fq ?s3 = (b4, s4)"
    by (cases "submit_next_file c e fq ?s3")
  from submit_next_file_eq[OF ns d ex sub i3] sub2
  have i4: "inv_eq fq s4" and e4: "pending_futures s4 = [] \<longrightarrow> file_queue_index s4 = length fq"
    and sub4: "set ds \<subseteq> set (pending_futures s4)"
    by auto
  have "for_done c e fq (f # ds) s = for_done c e fq ds s4"
    using ss sub by (simp add: s2_def Let_def)
  moreover have "distinct ds" using Cons.prems(3) by simp
  ultimately show ?case using Cons.IH[OF i4 e4 _ sub4] by simp
qed

lemma sliding_window_eq:
  assumes ns: "\<forall>t. \<not> stops c t" and d: "distinct fq" and ex: "\<forall>p\<in>set fq. exists_on_dequeue e p"
  shows "inv_eq fq s \<Longrightarrow> (pending_futures s = [] \<longrightarrow> file_queue_index s = length fq) \<Longrightarrow>
         sliding_window c e fq ws s = (True, s') \<Longrightarrow>
         inv_eq fq s' \<and> pending_futures s' = [] \<and> file_queue_index s' = length fq"
proof (induction ws arbitrary: s)
  case Nil
  have nf: "\<not> force_stop s" using Nil.prems(1) by (simp add: inv_eq_def)
  from Nil.prems(3) ns nf have "pending_futures s = [] \<and> s' = s"
    by (subst (asm) sliding_window.simps) (simp add: should_stop_def split: if_splits)
  with Nil.prems(1,2) show ?case by simp
next
  case (Cons w ws)
  have nf: "\<not> force_stop s" using Cons.prems(1) by (simp add: inv_eq_def)
  show ?case
  proof (cases "pending_futures s = []")
    case True
    with Cons.prems(3) have "s' = s" by (subst (asm) sliding_window.simps) simp
    with True Cons.prems(1,2) show ?thesis by simp
  next
    case False
    let ?s2 = "s\<lparr>clock := clock s + 2\<rparr>"
    define ds where "ds = filter (\<lambda>f. f \<in> set (pending_futures s)) (remdups w)"
    have i2: "inv_eq fq ?s2" using Cons.prems(1) by simp
    have e2: "pending_futures ?s2 = [] \<longrightarrow> file_queue_index ?s2 = length fq" using False by simp
    have dd: "distinct ds" "set ds \<subseteq> set (pending_futures ?s2)" by (auto simp: ds_def)
    from Cons.prems(3) False ns nf
    have "sliding_window c e fq ws (for_done c e fq ds ?s2) = (True, s')"
      by (subst (asm) sliding_window.simps) (simp add: should_stop_def Let_def ds_def)
    with for_done_eq[OF ns d ex i2 e2 dd] show ?thesis
      using Cons.IH by blast
  qed
qed

lemma first_pass_eq:
  assumes ns: "\<forall>t. \<not> stops c t" and d: "distinct fq" and ex: "\<forall>p\<in>set fq. exists_on_dequeue e p"
    and w: "0 < num_workers c" and i: "inv_eq fq s" and fp: "first_pass c e fq s = (True, s')"
  shows "counted s' = int (length fq)"
proof -
  obtain b1 s1 where sw: "sliding_window c e fq (waits e) (prefill c e fq s) = (b1, s1)"
    by (cases "sliding_window c e fq (waits e) (prefill c e fq s)")
  with fp have b1: "b1" and s': "s' = cancel_remaining c e s1"
    by (auto simp: first_pass_def split: bool.splits)
  from prefill_eq[OF ns d ex w i]
  have "inv_eq fq (prefill c e fq s)"
    "pending_futures (prefill c e fq s) = [] \<longrightarrow> file_queue_index (prefill c e fq s) = length fq"
    by simp_all
  from sliding_window_eq[OF ns d ex this sw[unfolded eqTrueI[OF b1]]]
  have i1: "inv_eq fq s1" and p1: "pending_futures s1 = []" and q1: "file_queue_index s1 = length fq"
    by simp_all
  have "cancel_remaining c e s1 = s1\<lparr>clock := clock s1 + 1\<rparr>"
    using ns i1 by (simp add: cancel_remaining_def should_stop_def inv_eq_def)
  with s' i1 p1 q1 show ?thesis by (simp add: inv_eq_def)
qed

section \<open>The summary of a run\<close>

text \<open>One credential, one worker, retries enabled; \<open>st\<close> is the cancellation signal.\<close>

definition one_worker :: "(nat \<Rightarrow> bool) \<Rightarrow> config" where
  "one_worker st = \<lparr>api_keys = [''k0''], num_workers = 1, auto_retry_enabled = True, stops = st\<rparr>"

lemma initial_inv_eq: "\<not> stops c 0 \<Longrightarrow> inv_eq fq (snd (should_stop c initial_state))"
  by (simp add: should_stop_def initial_state_def inv_eq_def counted_def)

lemma summary_of_run:
  assumes "batch_process_files c e0 envs fq = Summary r" "fq \<noteq> []" "\<not> stops c 0"
  shows "0 < num_workers c \<and> total_files r = Some (length fq) \<and>
         fst (run_passes c e0 envs fq (snd (should_stop c initial_state))) \<and>
         processed r + failed r + skipped r + stopped r
           = counted (snd (run_passes c e0 envs fq (snd (should_stop c initial_state))))"
proof -
  let ?s0 = "initial_state\<lparr>clock := 1\<rparr>"
  have ss: "should_stop c initial_state = (False, ?s0)"
    using assms(3) by (simp add: should_stop_def initial_state_def)
  obtain b s1 where rp: "run_passes c e0 envs fq ?s0 = (b, s1)" by (cases "run_passes c e0 envs fq ?s0")
  from assms(1,2) ss rp have w: "0 < num_workers c"
    by (cases "num_workers c \<le> 0") (simp_all add: batch_process_files_def Let_def)
  with assms(1,2) ss rp have "b" and "r = \<lparr>processed = processed_count s1, failed = failed_count s1,
      skipped = skipped_count s1, stopped = stopped_count s1, total_files = Some (length fq)\<rparr>"
    by (cases b; simp add: batch_process_files_def Let_def)+
  with w rp ss show ?thesis by (simp add: counted_def)
qed

text \<open>
  C1 (as amended). For every run that returns a summary, the sum of \<open>processed_count\<close>,
  \<open>failed_count\<close>, \<open>skipped_count\<close> and \<open>stopped_count\<close> is at most the number of enumerated
  files; and when no evaluation of \<open>should_stop()\<close> is true, the enumerated paths are
  distinct and each still exists when it is taken from the queue, the sum equals
  \<open>total_files\<close>, with or without retry rounds.
\<close>

theorem summary_accounts_for_files:
  assumes "batch_process_files c e0 envs files_to_process = Summary r"
  shows "processed r + failed r + skipped r + stopped r \<le> int (length files_to_process) \<and>
         ((\<forall>t. \<not> stops c t) \<and> distinct files_to_process \<and>
          (\<forall>p\<in>set files_to_process. exists_on_dequeue e0 p) \<longrightarrow>
            processed r + failed r + skipped r + stopped r = int (length files_to_process) \<and>
            total_files r = Some (length files_to_process))"
proof (cases "files_to_process = []")
  case True
  with assms have "r = \<lparr>processed = 0, failed = 0, skipped = 0, stopped = 0, total_files = Some 0\<rparr>"
    by (simp add: batch_process_files_def)
  with True show ?thesis by simp
next
  case ne: False
  show ?thesis
  proof (cases "stops c 0")
    case True
    with assms ne have "r = \<lparr>processed = 0, failed = 0, skipped = 0,
        stopped = int (length files_to_process), total_files = None\<rparr>"
      by (simp add: batch_process_files_def Let_def should_stop_def initial_state_def)
    with True show ?thesis by auto
  next
    case False
    let ?s0 = "snd (should_stop c initial_state)"
    from summary_of_run[OF assms ne False]
    have w: "0 < num_workers c" and tf: "total_files r = Some (length files_to_process)"
      and fin: "fst (run_passes c e0 envs files_to_process ?s0)"
      and sum: "processed r + failed r + skipped r + stopped r
           = counted (snd (run_passes c e0 envs files_to_process ?s0))"
      by simp_all
    have i0: "inv_first c (length files_to_process) ?s0" using w by (intro initial_inv_first) simp
    have le: "processed r + failed r + skipped r + stopped r \<le> int (length files_to_process)"
      using run_passes_inv[OF i0, of e0 envs] sum by simp
    have "processed r + failed r + skipped r + stopped r = int (length files_to_process)"
      if ns: "\<forall>t. \<not> stops c t" and d: "distinct files_to_process"
        and ex: "\<forall>p\<in>set files_to_process. exists_on_dequeue e0 p"
    proof -
      obtain b s1 where fp: "first_pass c e0 files_to_process ?s0 = (b, s1)"
        by (cases "first_pass c e0 files_to_process ?s0")
      from fin fp have b: "b" by (cases b) (simp_all add: run_passes_def)
      from fp b have fp': "first_pass c e0 files_to_process ?s0 = (True, s1)" by simp
      from first_pass_eq[OF ns d ex w initial_inv_eq[OF False] fp']
      have c1: "counted s1 = int (length files_to_process)" .
      from first_pass_inv[OF i0 fp] have "inv_retry c (tally s1) s1" by (simp add: inv_retry_def)
      from retry_phase_inv[OF this, of e0 envs]
      have "tally (snd (retry_phase c e0 envs s1)) = tally s1" by (simp add: inv_retry_def)
      then have "counted (snd (retry_phase c e0 envs s1)) = counted s1"
        by (simp add: tally_def counted_def)
      with fp' c1 sum show ?thesis by (simp add: run_passes_def)
    qed
    with le tf show ?thesis by blast
  qed
qed

text \<open>
  An environment in which the first attempt at \<open>a.jpg\<close> fails with \<open>failed_api\<close>; the
  retry round that follows succeeds.
\<close>

definition first_fails :: "path list list \<Rightarrow> pass_env" where
  "first_fails ws =
     (calm ws)\<lparr>future_result :=
        (\<lambda>p. if p = ''a.jpg'' then job ''failed_api'' p else job ''processed_exif'' p)\<rparr>"

theorem summary_accounts_for_files_witness:
  "batch_process_files (one_worker (\<lambda>t. False)) (first_fails [[''a.jpg''], [''b.jpg'']])
       [calm [[''a.jpg'']]] [''a.jpg'', ''b.jpg'']
     = Summary \<lparr>processed = 2, failed = 0, skipped = 0, stopped = 0, total_files = Some 2\<rparr> \<and>
   (\<forall>t. \<not> stops (one_worker (\<lambda>t. False)) t) \<and> distinct [''a.jpg'', ''b.jpg''] \<and>
   exists_on_dequeue (first_fails [[''a.jpg''], [''b.jpg'']]) ''a.jpg'' \<and>
   exists_on_dequeue (first_fails [[''a.jpg''], [''b.jpg'']]) ''b.jpg'' \<and>
   (2::int) + 0 + 0 + 0 = int (length [''a.jpg'', ''b.jpg''])"
proof -
  have run: "batch_process_files (one_worker (\<lambda>t. False)) (first_fails [[''a.jpg''], [''b.jpg'']])
       [calm [[''a.jpg'']]] [''a.jpg'', ''b.jpg'']
     = Summary \<lparr>processed = 2, failed = 0, skipped = 0, stopped = 0, total_files = Some 2\<rparr>"
    by code_simp
  have hyps: "(\<forall>t. \<not> stops (one_worker (\<lambda>t. False)) t) \<and> distinct [''a.jpg'', ''b.jpg''] \<and>
    (\<forall>p\<in>set [''a.jpg'', ''b.jpg'']. exists_on_dequeue (first_fails [[''a.jpg''], [''b.jpg'']]) p)"
    by (simp add: one_worker_def first_fails_def calm_def)
  from summary_accounts_for_files[OF run] hyps run show ?thesis by simp
qed

text \<open>
  Two runs whose summary does not add up to \<open>total_files\<close>. In the first, the run is
  cancelled while \<open>a.jpg\<close> is in flight and \<open>b.jpg\<close> is still queued: \<open>a.jpg\<close> is counted as
  stopped and \<open>b.jpg\<close> nowhere. In the second, \<open>b.jpg\<close> no longer exists when it is taken
  from the queue: \<open>_submit_next_file\<close> skips it without counting it.
\<close>

theorem summary_sum_counterexample:
  "batch_process_files (one_worker (\<lambda>t. 3 \<le> t)) (calm []) [] [''a.jpg'', ''b.jpg'']
     = Summary \<lparr>processed = 0, failed = 0, skipped = 0, stopped = 1, total_files = Some 2\<rparr> \<and>
   batch_process_files (one_worker (\<lambda>t. False))
       ((calm [[''a.jpg'']])\<lparr>exists_on_dequeue := (\<lambda>p. p \<noteq> ''b.jpg'')\<rparr>) [] [''a.jpg'', ''b.jpg'']
     = Summary \<lparr>processed = 1, failed = 0, skipped = 0, stopped = 0, total_files = Some 2\<rparr>"
  by code_simp

section \<open>Cancellation\<close>


text \<open>An environment in which every job returns \<open>failed_api\<close>.\<close>

definition api_fails :: "path list list \<Rightarrow> pass_env" where
  "api_fails ws = (calm ws)\<lparr>future_result := job ''failed_api''\<rparr>"



section \<open>The candidates of a retry round\<close>

lemma update_failed_files_absent:
  "input_path \<notin> fst ` set ff \<Longrightarrow> update_failed_files input_path st ff n = (ff, n)"
  by (induction ff arbitrary: n) (auto split: prod.splits)

lemma update_failed_files_present:
  "distinct (map fst ff) \<Longrightarrow> input_path \<in> fst ` set ff \<Longrightarrow>
   update_failed_files input_path st ff n = (ff', na) \<Longrightarrow>
   registry_entry ff' input_path = (st, snd (registry_entry ff input_path) + 1) \<and>
   na = snd (registry_entry ff input_path) + 1"
proof (induction ff arbitrary: n ff' na)
  case Nil then show ?case by simp
next
  case (Cons x ff)
  obtain fp st0 att where x: "x = (fp, st0, att)" by (cases x)
  show ?case
  proof (cases "fp = input_path")
    case True
    with Cons.prems(1) x have "input_path \<notin> fst ` set ff" by (auto simp: image_iff)
    from update_failed_files_absent[OF this]
    have "update_failed_files input_path st ff (att + 1) = (ff, att + 1)" .
    with Cons.prems(3) x True show ?thesis by auto
  next
    case False
    obtain u m where u: "update_failed_files input_path st ff n = (u, m)"
      by (cases "update_failed_files input_path st ff n")
    from Cons.prems x False have "distinct (map fst ff)" "input_path \<in> fst ` set ff" by auto
    from Cons.IH[OF this u] Cons.prems(3) x False u show ?thesis by auto
  qed
qed

lemma non_retryable_never: "st \<in> set NON_RETRYABLE_STATUSES \<Longrightarrow> \<not> is_retryable st att"
  by (simp add: is_retryable_def)

lemma registry_entry_distinct:
  "distinct (map fst ff) \<Longrightarrow> (p, st, att) \<in> set ff \<Longrightarrow> registry_entry ff p = (st, att)"
  by (induction ff) (auto simp: image_iff)

text \<open>
  C2 (as amended). The candidates of the first retry round are exactly the registered
  paths that are not empty, still exist, and have an entry that \<open>is_retryable\<close> accepts.
  The candidates of the round after round N are exactly the paths that round N put on
  \<open>current_retry_failed_files\<close>, that still exist, and whose registry entry \<open>is_retryable\<close>
  accepts; a job of round N that returns a failure status gets its entry rewritten to
  that status with the attempt count plus one, and is put on that list exactly when the
  new entry is retryable. A path whose registered status is one of \<open>failed_format\<close>,
  \<open>failed_empty\<close>, \<open>failed_input_missing\<close> is a candidate of no round.
\<close>

theorem retry_candidate_sets:
  "set (initial_retry_files e ff)
     = {p. p \<noteq> [] \<and> exists_after e p \<and> (\<exists>st att. (p, st, att) \<in> set ff \<and> is_retryable st att)} \<and>
   set (next_retry_files e s)
     = {p. p \<in> set (current_retry_failed_files s) \<and> p \<noteq> [] \<and> exists_after e p \<and>
           is_retryable (fst (registry_entry (failed_files s) p)) (snd (registry_entry (failed_files s) p))} \<and>
   (future_result e p = Returned r \<and>
    r_status r \<notin> {''processed_exif'', ''processed_no_exif'', ''processed_exif_failed'',
                   ''processed_unknown_exif_status'', ''stopped''} \<and>
    distinct (map fst (failed_files s)) \<and> p \<in> fst ` set (failed_files s) \<longrightarrow>
      registry_entry (failed_files (handle_retry_result e p s)) p
        = (r_status r, snd (registry_entry (failed_files s) p) + 1) \<and>
      current_retry_failed_files (handle_retry_result e p s)
        = current_retry_failed_files s @
          (if is_retryable (r_status r) (snd (registry_entry (failed_files s) p) + 1) then [p] else [])) \<and>
   (p \<in> set (next_retry_files e s) \<longrightarrow>
      fst (registry_entry (failed_files s) p) \<notin> set NON_RETRYABLE_STATUSES) \<and>
   (distinct (map fst ff) \<and> p \<in> set (initial_retry_files e ff) \<longrightarrow>
      fst (registry_entry ff p) \<notin> set NON_RETRYABLE_STATUSES)"
proof (intro conjI impI)
  show "set (initial_retry_files e ff)
     = {p. p \<noteq> [] \<and> exists_after e p \<and> (\<exists>st att. (p, st, att) \<in> set ff \<and> is_retryable st att)}"
  proof (intro set_eqI iffI)
    fix p assume "p \<in> set (initial_retry_files e ff)"
    then obtain x where x: "x \<in> set ff" "fst x = p"
      "case x of (file_path, st, attempt) \<Rightarrow>
         file_path \<noteq> [] \<and> exists_after e file_path \<and> is_retryable st attempt"
      by (auto simp: initial_retry_files_def)
    obtain st att where "x = (p, st, att)" using x(2) by (cases x) auto
    with x show "p \<in> {p. p \<noteq> [] \<and> exists_after e p \<and>
        (\<exists>st att. (p, st, att) \<in> set ff \<and> is_retryable st att)}" by auto
  next
    fix p assume "p \<in> {p. p \<noteq> [] \<and> exists_after e p \<and>
        (\<exists>st att. (p, st, att) \<in> set ff \<and> is_retryable st att)}"
    then obtain st att where "p \<noteq> []" "exists_after e p" "(p, st, att) \<in> set ff" "is_retryable st att"
      by blast
    then have "(p, st, att) \<in> set (filter (\<lambda>(file_path, st, attempt).
          file_path \<noteq> [] \<and> exists_after e file_path \<and> is_retryable st attempt) ff)" by simp
    then have "fst (p, st, att) \<in> fst ` set (filter (\<lambda>(file_path, st, attempt).
          file_path \<noteq> [] \<and> exists_after e file_path \<and> is_retryable st attempt) ff)"
      by (rule imageI)
    then show "p \<in> set (initial_retry_files e ff)" by (simp add: initial_retry_files_def)
  qed
  show nx: "set (next_retry_files e s)
     = {p. p \<in> set (current_retry_failed_files s) \<and> p \<noteq> [] \<and> exists_after e p \<and>
           is_retryable (fst (registry_entry (failed_files s) p)) (snd (registry_entry (failed_files s) p))}"
    by (auto simp: next_retry_files_def case_prod_beta)
  {
    assume "p \<in> set (next_retry_files e s)"
    with nx have "is_retryable (fst (registry_entry (failed_files s) p)) (snd (registry_entry (failed_files s) p))"
      by simp
    with non_retryable_never show "fst (registry_entry (failed_files s) p) \<notin> set NON_RETRYABLE_STATUSES"
      by blast
  }
  {
    assume a: "distinct (map fst ff) \<and> p \<in> set (initial_retry_files e ff)"
    then obtain st att where m: "(p, st, att) \<in> set ff" "is_retryable st att"
      by (auto simp: initial_retry_files_def)
    from registry_entry_distinct[OF _ m(1)] a have "registry_entry ff p = (st, att)" by simp
    with m(2) non_retryable_never show "fst (registry_entry ff p) \<notin> set NON_RETRYABLE_STATUSES"
      by auto
  }
  {
    assume a: "future_result e p = Returned r \<and>
      r_status r \<notin> {''processed_exif'', ''processed_no_exif'', ''processed_exif_failed'',
                   ''processed_unknown_exif_status'', ''stopped''} \<and>
      distinct (map fst (failed_files s)) \<and> p \<in> fst ` set (failed_files s)"
    obtain u na where u: "update_failed_files p (r_status r) (failed_files s) 1 = (u, na)"
      by (cases "update_failed_files p (r_status r) (failed_files s) 1")
    from update_failed_files_present[OF _ _ u] a
    have reg: "registry_entry u p = (r_status r, snd (registry_entry (failed_files s) p) + 1)"
      and na: "na = snd (registry_entry (failed_files s) p) + 1" by simp_all
    from a u have hr: "handle_retry_result e p s =
        s\<lparr>retry_failed := retry_failed s + 1, failed_files := u,
          current_retry_failed_files :=
            (if is_retryable (r_status r) na then current_retry_failed_files s @ [p]
             else current_retry_failed_files s)\<rparr>"
      by (simp add: handle_retry_result_def Let_def)
    show "registry_entry (failed_files (handle_retry_result e p s)) p
        = (r_status r, snd (registry_entry (failed_files s) p) + 1)"
      unfolding hr using reg by simp
    show "current_retry_failed_files (handle_retry_result e p s)
        = current_retry_failed_files s @
          (if is_retryable (r_status r) (snd (registry_entry (failed_files s) p) + 1) then [p] else [])"
      unfolding hr using na by simp
  }
qed

text \<open>\<open>a.jpg\<close>, registered as \<open>failed_api\<close> with one attempt, fails again with \<open>failed_api\<close>.\<close>

theorem retry_candidate_sets_witness:
  "future_result (api_fails []) ''a.jpg''
     = Returned \<lparr>r_status = ''failed_api'', r_input = ''a.jpg'', r_output = None, r_metadata = None,
                  r_original_filename = None, r_new_filename = None\<rparr> \<and>
   distinct (map fst [(''a.jpg'', ''failed_api'', 1::int)]) \<and>
   ''a.jpg'' \<in> fst ` set [(''a.jpg'', ''failed_api'', 1::int)] \<and>
   ''a.jpg'' \<in> set (next_retry_files (api_fails [])
       (initial_state\<lparr>failed_files := [(''a.jpg'', ''failed_api'', 1)],
                      current_retry_failed_files := [''a.jpg'']\<rparr>)) \<and>
   ''a.jpg'' \<in> set (initial_retry_files (api_fails []) [(''a.jpg'', ''failed_api'', 1)]) \<and>
   registry_entry (failed_files (handle_retry_result (api_fails []) ''a.jpg''
       (initial_state\<lparr>failed_files := [(''a.jpg'', ''failed_api'', 1)],
                      current_retry_failed_files := [''a.jpg'']\<rparr>))) ''a.jpg''
     = (''failed_api'', 2) \<and>
   ''failed_api'' \<notin> set NON_RETRYABLE_STATUSES"
proof -
  let ?e = "api_fails []"
  let ?r = "\<lparr>r_status = ''failed_api'', r_input = ''a.jpg'', r_output = None, r_metadata = None,
                  r_original_filename = None, r_new_filename = None\<rparr>"
  let ?ff = "[(''a.jpg'', ''failed_api'', 1::int)]"
  let ?s = "initial_state\<lparr>failed_files := ?ff, current_retry_failed_files := [''a.jpg'']\<rparr>"
  have h1: "future_result ?e ''a.jpg'' = Returned ?r" by (simp add: api_fails_def calm_def job_def)
  have h2: "r_status ?r \<notin> {''processed_exif'', ''processed_no_exif'', ''processed_exif_failed'',
                   ''processed_unknown_exif_status'', ''stopped''}" by simp
  have h3: "distinct (map fst (failed_files ?s))" "''a.jpg'' \<in> fst ` set (failed_files ?s)"
    by (simp_all add: initial_state_def)
  have h4: "''a.jpg'' \<in> set (next_retry_files ?e ?s)"
    by (simp add: next_retry_files_def api_fails_def calm_def initial_state_def is_retryable_def
        RETRYABLE_STATUSES_def NON_RETRYABLE_STATUSES_def)
  have h5: "''a.jpg'' \<in> set (initial_retry_files ?e ?ff)"
    by (simp add: initial_retry_files_def api_fails_def calm_def is_retryable_def
        RETRYABLE_STATUSES_def NON_RETRYABLE_STATUSES_def)
  have v: "failed_files ?s = ?ff" "registry_entry ?ff ''a.jpg'' = (''failed_api'', 1)"
    by (simp_all add: initial_state_def)
  from retry_candidate_sets[of ?e ?ff ?s "''a.jpg''" ?r] h1 h2 h3 h4 h5 v
  show ?thesis by simp
qed

text \<open>
  After a first pass and a retry round in which \<open>a.jpg\<close> failed with \<open>failed_api\<close> both
  times, its entry is \<open>(failed_api, 2)\<close>, below the five attempts of the table; yet it is
  no candidate of the next round when the file has gone from the disk (line 997).
\<close>

theorem retry_candidate_counterexample:
  "registry_entry (failed_files (snd (retry_round (one_worker (\<lambda>t. False))
        ((api_fails [[''a.jpg'']])\<lparr>exists_after := (\<lambda>p. False)\<rparr>) [''a.jpg'']
        (snd (first_pass (one_worker (\<lambda>t. False)) (api_fails [[''a.jpg'']]) [''a.jpg'']
           initial_state))))) ''a.jpg'' = (''failed_api'', 2) \<and>
   is_retryable ''failed_api'' 2 \<and>
   next_retry_files ((api_fails [[''a.jpg'']])\<lparr>exists_after := (\<lambda>p. False)\<rparr>)
      (snd (retry_round (one_worker (\<lambda>t. False))
        ((api_fails [[''a.jpg'']])\<lparr>exists_after := (\<lambda>p. False)\<rparr>) [''a.jpg'']
        (snd (first_pass (one_worker (\<lambda>t. False)) (api_fails [[''a.jpg'']]) [''a.jpg'']
           initial_state)))) = []"
  by code_simp

section \<open>Paths and strings of the per-file processor\<close>

text \<open>
  \<open>os.path.basename\<close>, \<open>os.path.splitext\<close> and \<open>os.path.join\<close> as \<open>posixpath\<close> defines them,
  and the decimal numeral of an f-string. Python's \<open>str.lower\<close> and \<open>str.strip\<close> know all of
  Unicode; the processor takes them as given (\<open>str_lower\<close>, \<open>str_strip\<close> below). What they
  do on a string of ASCII characters is \<open>ascii_lower\<close> and \<open>ascii_strip\<close>, which only the
  examples use.
\<close>

definition basename :: "path \<Rightarrow> string" where
  "basename p = rev (takeWhile (\<lambda>ch. ch \<noteq> CHR ''/'') (rev p))"

definition splitext :: "path \<Rightarrow> string \<times> string" where
  "splitext p =
     (let name = basename p
      in if CHR ''.'' \<notin> set name then (p, [])
         else (let ext = CHR ''.'' # rev (takeWhile (\<lambda>ch. ch \<noteq> CHR ''.'') (rev name));
                   stem = take (length name - length ext) name
               in if list_all (\<lambda>ch. ch = CHR ''.'') stem then (p, [])
                  else (take (length p - length ext) p, ext)))"

definition join :: "path \<Rightarrow> string \<Rightarrow> path" where
  "join a b =
     (if b \<noteq> [] \<and> hd b = CHR ''/'' then b
      else if a = [] \<or> last a = CHR ''/'' then a @ b
      else a @ ''/'' @ b)"

definition ascii_lower_char :: "char \<Rightarrow> char" where
  "ascii_lower_char ch =
     (case map_of (zip ''ABCDEFGHIJKLMNOPQRSTUVWXYZ'' ''abcdefghijklmnopqrstuvwxyz'') ch of
        Some l \<Rightarrow> l
      | None \<Rightarrow> ch)"

definition ascii_lower :: "string \<Rightarrow> string" where
  "ascii_lower s = map ascii_lower_char s"

definition ascii_space :: "char \<Rightarrow> bool" where
  "ascii_space ch \<longleftrightarrow>
     ch \<in> set [CHR '' '', CHR 0x09, CHR 0x0A, CHR 0x0B, CHR 0x0C, CHR 0x0D,
                CHR 0x1C, CHR 0x1D, CHR 0x1E, CHR 0x1F]"

definition ascii_strip :: "string \<Rightarrow> string" where
  "ascii_strip s = rev (dropWhile ascii_space (rev (dropWhile ascii_space s)))"

function str_nat :: "nat \<Rightarrow> string" where
  "str_nat n =
     (if n < 10 then [''0123456789'' ! n]
      else str_nat (n div 10) @ [''0123456789'' ! (n mod 10)])"
  by pat_completeness auto
termination
  by (relation "measure id") auto

declare str_nat.simps [simp del]

section \<open>The world of one job\<close>

text \<open>
  What a job can change: the files (path to content), the directories, and a trace of
  the calls it made to its collaborators and to the file system. \<open>ticks\<close> counts the
  readings of the cancellation signal by this job.
\<close>

datatype effect =
    MadeDir path
  | Converted path path
  | AiCall path
  | Removed path
  | Copied path path
  | Moved path path
  | ExifWritten path path
  | CsvRow string string

record world =
  files :: "path \<Rightarrow> string option"
  dirs :: "path set"
  ticks :: nat
  events :: "effect list"

text \<open>
  What the processor calls and this theory does not look into: the cancellation signal
  and the force-stop flag at each reading, Python's \<open>str.lower\<close> and \<open>str.strip\<close>, the
  EPS converter (success flag, and the raster it wrote if any), the libraries of the SVG
  converter (\<open>svg2rlg\<close> on the content of the file, \<open>renderPM.drawToFile\<close> on the drawing),
  the compressor, the AI provider, the EXIF writer (\<open>None\<close> when it raises; else \<open>proceed\<close>,
  the status and the output it rewrote if any), the processors of the other formats
  (\<open>None\<close> when they raise), and the file operations that fail.
\<close>

datatype ai_result = AiStopped | AiError string | AiMeta metadata | AiInvalid

datatype compress_result = NotCompressed | Compressed path string | CompressRaises

datatype parse_result = ParseRaises | ParseNone | Drawing string

datatype render_result = RenderRaises | Rendered string

type_synonym presult = "status \<times> metadata option \<times> path option"

record collab =
  stop_event_set :: "nat \<Rightarrow> bool"
  stop_requested :: "nat \<Rightarrow> bool"
  str_lower :: "string \<Rightarrow> string"
  str_strip :: "string \<Rightarrow> string"
  video_extensions :: "string list"
  convert_eps_to_jpg :: "path \<Rightarrow> path \<Rightarrow> bool \<times> string option"
  svg2rlg :: "string \<Rightarrow> parse_result"
  drawToFile :: "string \<Rightarrow> render_result"
  compress_image :: "path \<Rightarrow> compress_result"
  get_metadata :: "path \<Rightarrow> ai_result"
  write_exif_with_exiftool :: "path \<Rightarrow> path \<Rightarrow> metadata \<Rightarrow> (bool \<times> string \<times> string option) option"
  process_video :: "path \<Rightarrow> path \<Rightarrow> world \<Rightarrow> presult option \<times> world"
  process_jpg_jpeg :: "path \<Rightarrow> path \<Rightarrow> world \<Rightarrow> presult option \<times> world"
  process_png :: "path \<Rightarrow> path \<Rightarrow> world \<Rightarrow> presult option \<times> world"
  select_api_key :: "string list \<Rightarrow> string option"
  sanitize_filename :: "string \<Rightarrow> string"
  makedirs_raises :: "path \<Rightarrow> bool"
  copy_raises :: "path \<Rightarrow> bool"
  move_raises :: "path \<Rightarrow> bool"
  remove_raises :: "path \<Rightarrow> bool"
  csv_raises :: "string \<Rightarrow> bool"

definition path_exists :: "world \<Rightarrow> path \<Rightarrow> bool" where
  "path_exists w p \<longleftrightarrow> files w p \<noteq> None \<or> p \<in> dirs w"

text \<open>\<open>_check_stop\<close> of \<open>process_vector_file\<close> and \<open>_should_stop\<close> of \<open>process_single_file\<close>.\<close>

definition check_stop :: "collab \<Rightarrow> world \<Rightarrow> bool \<times> world" where
  "check_stop c w = (stop_event_set c (ticks w), w\<lparr>ticks := ticks w + 1\<rparr>)"

definition job_should_stop :: "collab \<Rightarrow> world \<Rightarrow> bool \<times> world" where
  "job_should_stop c w =
     (stop_event_set c (ticks w) \<or> stop_requested c (ticks w), w\<lparr>ticks := ticks w + 1\<rparr>)"

text \<open>\<open>os.makedirs(d, exist_ok=True)\<close> when it does not raise, and a guarded \<open>os.remove\<close>.\<close>

definition makedirs :: "path \<Rightarrow> world \<Rightarrow> world" where
  "makedirs d w =
     (if d \<in> dirs w then w
      else w\<lparr>dirs := insert d (dirs w), events := events w @ [MadeDir d]\<rparr>)"

definition remove_if_exists :: "collab \<Rightarrow> path \<Rightarrow> world \<Rightarrow> world" where
  "remove_if_exists c p w =
     (if path_exists w p \<and> \<not> remove_raises c p
      then w\<lparr>files := (files w)(p := None), events := events w @ [Removed p]\<rparr>
      else w)"

section \<open>convert\_svg\_to\_jpg (format\_svg\_processing.py, lines 24--50)\<close>

text \<open>
  The signal is read before the parse and after it; every exception, also that of a
  missing file, gives \<open>False\<close>. The conversion succeeded when the output exists and is not
  empty.
\<close>

definition convert_svg_to_jpg :: "collab \<Rightarrow> path \<Rightarrow> path \<Rightarrow> world \<Rightarrow> bool \<times> world" where
  "convert_svg_to_jpg c svg_path output_jpg_path w =
     (case check_stop c w of
        (True, w1) \<Rightarrow> (False, w1)
      | (False, w1) \<Rightarrow>
         (case files w1 svg_path of
            None \<Rightarrow> (False, w1)
          | Some d \<Rightarrow>
             (case svg2rlg c d of
                ParseRaises \<Rightarrow> (False, w1)
              | ParseNone \<Rightarrow> (False, w1)
              | Drawing drawing \<Rightarrow>
                 (case check_stop c w1 of
                    (True, w2) \<Rightarrow> (False, w2)
                  | (False, w2) \<Rightarrow>
                     (case drawToFile c drawing of
                        RenderRaises \<Rightarrow> (False, w2)
                      | Rendered out \<Rightarrow>
                         (let w3 = w2\<lparr>files := (files w2)(output_jpg_path := Some out)\<rparr>
                          in if path_exists w3 output_jpg_path \<and> length out > 0
                             then (True, w3) else (False, w3)))))))"

section \<open>process\_vector\_file (lines 83--242)\<close>

text \<open>
  Lines 135--147: the call of the converter of the format. \<open>convert_eps_to_jpg\<close> serves
  \<open>.eps\<close> and \<open>.ai\<close>.
\<close>

definition run_conversion :: "collab \<Rightarrow> path \<Rightarrow> path \<Rightarrow> string \<Rightarrow> world \<Rightarrow> bool \<times> world" where
  "run_conversion c input_path temp_raster_path ext_lower w =
     (let called = w\<lparr>events := events w @ [Converted input_path temp_raster_path]\<rparr>
      in if ext_lower = ''.eps'' \<or> ext_lower = ''.ai''
         then (case convert_eps_to_jpg c input_path temp_raster_path of
                 (ok, written) \<Rightarrow>
                   (ok, called\<lparr>files := (case written of
                                             None \<Rightarrow> files called
                                           | Some d \<Rightarrow> (files called)(temp_raster_path := Some d))\<rparr>))
         else convert_svg_to_jpg c input_path temp_raster_path called)"

text \<open>
  Lines 119--168: the conversion to a raster, and its compression. The result is the
  triple returned early, or \<open>temp_raster_path\<close>.
\<close>

definition convert_vector ::
  "collab \<Rightarrow> path \<Rightarrow> path \<Rightarrow> string \<Rightarrow> string \<Rightarrow> world \<Rightarrow> (presult + path) \<times> world" where
  "convert_vector c input_path chosen_temp_folder filename ext_lower w =
     (let base = fst (splitext filename);
          temp_raster_path = join chosen_temp_folder (base @ ''_converted.jpg'')
      in case check_stop c w of
           (True, w1) \<Rightarrow> (Inl (''stopped'', None, None), w1)
         | (False, w1) \<Rightarrow>
            (case run_conversion c input_path temp_raster_path ext_lower w1 of
               (conversion_success, w2) \<Rightarrow>
                 if \<not> conversion_success
                 then (Inl (''failed_conversion'', None, None),
                       remove_if_exists c temp_raster_path w2)
                 else if path_exists w2 temp_raster_path
                 then (case compress_image c temp_raster_path of
                         Compressed compressed_raster_path d \<Rightarrow>
                           (let w3 = w2\<lparr>files := (files w2)(compressed_raster_path := Some d)\<rparr>
                            in if remove_raises c temp_raster_path
                               then (Inr temp_raster_path, w3)
                               else (Inr compressed_raster_path,
                                     w3\<lparr>files := (files w3)(temp_raster_path := None),
                                        events := events w3 @ [Removed temp_raster_path]\<rparr>))
                       | _ \<Rightarrow> (Inr temp_raster_path, w2))
                 else (Inr temp_raster_path, w2)))"

text \<open>Lines 206--242: the copy to the output and the embedding.\<close>

definition embed_vector ::
  "collab \<Rightarrow> path \<Rightarrow> path \<Rightarrow> metadata \<Rightarrow> bool \<Rightarrow> string \<Rightarrow> world \<Rightarrow> presult \<times> world" where
  "embed_vector c input_path initial_output_path md embedding_enabled kw w =
     (case files w input_path of
        None \<Rightarrow> ((''failed_copy'', Some md, None), w)
      | Some d \<Rightarrow>
         if copy_raises c input_path then ((''failed_copy'', Some md, None), w)
         else
          (let w1 = w\<lparr>files := (files w)(initial_output_path := Some d),
                       events := events w @ [Copied input_path initial_output_path]\<rparr>;
               md1 = md\<lparr>keyword_count := Some kw\<rparr>
           in if \<not> embedding_enabled
              then ((''processed_no_exif'', Some md1, Some initial_output_path), w1)
              else (case write_exif_with_exiftool c input_path initial_output_path md1 of
                      None \<Rightarrow> ((''failed_copy'', Some md1, None), w1)
                    | Some (proceed, exif_status, rewritten) \<Rightarrow>
                       (let w2 = w1\<lparr>files := (case rewritten of
                                                  None \<Rightarrow> files w1
                                                | Some d' \<Rightarrow> (files w1)(initial_output_path := Some d')),
                                     events := events w1 @ [ExifWritten input_path initial_output_path]\<rparr>
                        in if \<not> proceed
                           then ((''failed_'' @ exif_status, Some md1, Some initial_output_path), w2)
                           else if exif_status = ''exif_ok''
                           then ((''processed_exif'', Some md1, Some initial_output_path), w2)
                           else if exif_status = ''exif_failed''
                           then ((''processed_exif_failed'', Some md1, Some initial_output_path), w2)
                           else if exif_status = ''no_metadata''
                           then ((''processed_no_exif'', Some md1, Some initial_output_path), w2)
                           else if exif_status = ''exiftool_not_found''
                           then ((''processed_exif_failed'', Some md1, Some initial_output_path), w2)
                           else ((''processed_unknown_exif_status'', Some md1,
                                  Some initial_output_path), w2)))))"

text \<open>
  \<open>process_vector_file\<close>. The result is \<open>None\<close> when an exception leaves the function
  (\<open>os.makedirs\<close> of the temporary folder).
\<close>

definition process_vector_file ::
  "collab \<Rightarrow> path \<Rightarrow> path \<Rightarrow> bool \<Rightarrow> string \<Rightarrow> world \<Rightarrow> presult option \<times> world" where
  "process_vector_file c input_path output_dir embedding_enabled kw w =
     (let filename = basename input_path;
          ext_lower = str_lower c (snd (splitext filename));
          initial_output_path = join output_dir filename;
          conversion_needed = (ext_lower = ''.eps'' \<or> ext_lower = ''.ai'' \<or> ext_lower = ''.svg'')
      in case check_stop c w of
           (True, w1) \<Rightarrow> (Some (''stopped'', None, None), w1)
         | (False, w1) \<Rightarrow>
            if path_exists w1 initial_output_path
            then (Some (''skipped_exists'', None, Some initial_output_path), w1)
            else
             (let chosen_temp_folder = join output_dir ''temp_compressed''
              in if makedirs_raises c chosen_temp_folder then (None, w1)
                 else
                  (case (if conversion_needed
                         then (case convert_vector c input_path chosen_temp_folder filename ext_lower
                                      (makedirs chosen_temp_folder w1) of
                                 (Inl early, w2) \<Rightarrow> (Inl early, w2)
                               | (Inr t, w2) \<Rightarrow> (Inr (Some t), w2))
                         else (Inr None, makedirs chosen_temp_folder w1)) of
                     (Inl early, w2) \<Rightarrow> (Some early, w2)
                   | (Inr temp_raster_path, w2) \<Rightarrow>
                      (let sent = (case temp_raster_path of Some t \<Rightarrow> t | None \<Rightarrow> input_path);
                           metadata_result = get_metadata c sent;
                           w3 = w2\<lparr>events := events w2 @ [AiCall sent]\<rparr>;
                           w4 = (case temp_raster_path of
                                   Some t \<Rightarrow> remove_if_exists c t w3
                                 | None \<Rightarrow> w3)
                       in case metadata_result of
                            AiStopped \<Rightarrow> (Some (''stopped'', None, None), w4)
                          | AiError err \<Rightarrow> (Some (''failed_api'', None, None), w4)
                          | AiInvalid \<Rightarrow> (Some (''failed_api'', None, None), w4)
                          | AiMeta md \<Rightarrow>
                             (case check_stop c w4 of
                                (True, w5) \<Rightarrow> (Some (''stopped'', Some md, None), w5)
                              | (False, w5) \<Rightarrow>
                                 (case embed_vector c input_path initial_output_path md
                                         embedding_enabled kw w5 of
                                    (res, w6) \<Rightarrow> (Some res, w6)))))))"

section \<open>process\_image (lines 244--314)\<close>

text \<open>\<open>os.path.getsize\<close> raises for a missing file, which the \<open>except\<close> turns into \<open>failed_unknown\<close>.\<close>

definition process_image ::
  "collab \<Rightarrow> path \<Rightarrow> path \<Rightarrow> bool \<Rightarrow> string \<Rightarrow> world \<Rightarrow> presult option \<times> world" where
  "process_image c input_path output_dir embedding_enabled kw w =
     (let filename = basename input_path;
          ext_lower = str_lower c (snd (splitext filename))
      in case files w input_path of
           None \<Rightarrow> (Some (''failed_unknown'', None, None), w)
         | Some d \<Rightarrow>
            if length d < 100 then (Some (''failed_empty'', None, None), w)
            else if ext_lower = ''.png'' then process_png c input_path output_dir w
            else if ext_lower \<in> set [''.eps'', ''.ai'', ''.svg'']
            then process_vector_file c input_path output_dir embedding_enabled kw w
            else if ext_lower \<in> set [''.jpg'', ''.jpeg'']
            then process_jpg_jpeg c input_path output_dir w
            else (Some (''failed_format'', None, None), w))"


section \<open>process\_single\_file (lines 316--557)\<close>

text \<open>
  Lines 481--487: the search for a free name. \<open>ex\<close> is \<open>os.path.exists\<close>; the result is
  \<open>new_base_filename\<close>, \<open>new_path\<close> and \<open>counter\<close> when the loop ends.
\<close>

definition max_rename_attempts :: nat where
  "max_rename_attempts = 50"

function rename_loop ::
  "(path \<Rightarrow> bool) \<Rightarrow> path \<Rightarrow> string \<Rightarrow> string \<Rightarrow> string \<Rightarrow> path \<Rightarrow> nat \<Rightarrow> string \<times> path \<times> nat" where
  "rename_loop ex target_output_dir sanitized_title file_ext new_base_filename new_path counter =
     (if ex new_path \<and> counter < max_rename_attempts
      then (let counter' = counter + 1;
                new_base_filename' = sanitized_title @ '' ('' @ str_nat counter' @ '')'' @ file_ext
            in rename_loop ex target_output_dir sanitized_title file_ext new_base_filename'
                 (join target_output_dir new_base_filename') counter')
      else (new_base_filename, new_path, counter))"
  by pat_completeness auto
termination
  by (relation "measure (\<lambda>(ex, t, st, fe, nb, np, counter). max_rename_attempts - counter)") auto

declare rename_loop.simps [simp del]

text \<open>
  Lines 466--500: the renaming of the output. The result is \<open>None\<close> when the block raises
  (\<open>initial_output_path\<close> is \<open>None\<close>); else \<open>final_output_path\<close>, \<open>new_filename\<close> and the world.
\<close>

definition rename_output ::
  "collab \<Rightarrow> string \<Rightarrow> path \<Rightarrow> bool \<Rightarrow> metadata option \<Rightarrow> path option \<Rightarrow> world \<Rightarrow>
   (path option \<times> string option \<times> world) option" where
  "rename_output c original_filename target_output_dir rename_enabled processed_metadata
       initial_output_path w =
     (case (if rename_enabled then
              (case processed_metadata of
                 None \<Rightarrow> None
               | Some md \<Rightarrow> (case title md of None \<Rightarrow> None | Some t \<Rightarrow> if t = [] then None else Some t))
            else None) of
        None \<Rightarrow> Some (initial_output_path, None, w)
      | Some t \<Rightarrow>
         (let file_ext = snd (splitext original_filename);
              title_for_rename = str_strip c t
          in if title_for_rename = [] then Some (initial_output_path, None, w)
             else
              (let sanitized_title =
                     (if sanitize_filename c title_for_rename = []
                      then ''untitled_'' @ fst (splitext original_filename)
                      else sanitize_filename c title_for_rename);
                   new_base_filename = sanitized_title @ file_ext;
                   new_path = join target_output_dir new_base_filename
               in case initial_output_path of
                    None \<Rightarrow> None
                  | Some iop \<Rightarrow>
                     if str_lower c new_path \<noteq> str_lower c iop
                     then (case rename_loop (path_exists w) target_output_dir sanitized_title file_ext
                                  new_base_filename new_path 0 of
                             (new_base_filename', new_path', counter) \<Rightarrow>
                               if counter \<ge> max_rename_attempts
                               then Some (initial_output_path, None, w)
                               else (case files w iop of
                                       None \<Rightarrow> Some (initial_output_path, None, w)
                                     | Some d \<Rightarrow>
                                        if move_raises c iop
                                        then Some (initial_output_path, None, w)
                                        else Some (Some new_path', Some new_base_filename',
                                               w\<lparr>files := (files w)(iop := None, new_path' := Some d),
                                                 events := events w @ [Moved iop new_path']\<rparr>)))
                     else Some (initial_output_path, None, w))))"

text \<open>
  Lines 502--539, for a status of \<open>processed_statuses\<close>: the original is deleted and a row
  is appended to the CSV files. The first component is True when an exception leaves the
  block: if \<open>os.makedirs\<close> of the CSV folder raises, the handler of line 538 formats
  \<open>final_filename_for_csv\<close>, which is not yet bound, and raises in turn.
\<close>

definition delete_and_log ::
  "collab \<Rightarrow> path \<Rightarrow> path \<Rightarrow> bool \<Rightarrow> status \<Rightarrow> metadata option \<Rightarrow> path option \<Rightarrow>
   string option \<Rightarrow> world \<Rightarrow> bool \<times> world" where
  "delete_and_log c input_path target_output_dir rename_enabled st processed_metadata
       final_output_path new_filename w =
     (let w1 = (if st \<noteq> ''failed_copy'' \<and> st \<noteq> ''skipped_exists''
                then remove_if_exists c input_path w else w)
      in case (processed_metadata, final_output_path) of
           (Some md, Some fop) \<Rightarrow>
             if fop = [] then (False, w1)
             else
              (let csv_subfolder = join target_output_dir ''metadata_csv''
               in if \<not> path_exists w1 csv_subfolder \<and> makedirs_raises c csv_subfolder
                  then (True, w1)
                  else
                   (let w2 = (if path_exists w1 csv_subfolder then w1 else makedirs csv_subfolder w1);
                        final_filename_for_csv = basename fop;
                        title_for_csv =
                          (case (rename_enabled, new_filename) of
                             (True, Some nf) \<Rightarrow>
                               if nf = [] then (case title md of Some t \<Rightarrow> t | None \<Rightarrow> [])
                               else fst (splitext nf)
                           | _ \<Rightarrow> (case title md of Some t \<Rightarrow> t | None \<Rightarrow> []))
                    in if csv_raises c final_filename_for_csv then (False, w2)
                       else (False,
                             w2\<lparr>events := events w2 @ [CsvRow final_filename_for_csv title_for_csv]\<rparr>)))
         | _ \<Rightarrow> (False, w1))"

definition processed_statuses :: "status list" where
  "processed_statuses =
     [''processed_exif'', ''processed_no_exif'', ''processed_exif_failed'',
      ''processed_unknown_exif_status'']"

text \<open>The dictionaries with the keys \<open>status\<close> and \<open>input\<close> only, and the full one.\<close>

definition short_result :: "status \<Rightarrow> path \<Rightarrow> result" where
  "short_result st input_path =
     \<lparr>r_status = st, r_input = input_path, r_output = None, r_metadata = None,
      r_original_filename = None, r_new_filename = None\<rparr>"

definition full_result ::
  "status \<Rightarrow> path \<Rightarrow> path option \<Rightarrow> metadata option \<Rightarrow> string \<Rightarrow> string option \<Rightarrow> result" where
  "full_result st input_path final_output_path processed_metadata original_filename new_filename =
     \<lparr>r_status = st, r_input = input_path, r_output = final_output_path,
      r_metadata = processed_metadata, r_original_filename = Some original_filename,
      r_new_filename = new_filename\<rparr>"

text \<open>Lines 399--456: the processor of the format. \<open>None\<close> when it raises.\<close>

definition dispatch ::
  "collab \<Rightarrow> path \<Rightarrow> path \<Rightarrow> bool \<Rightarrow> string \<Rightarrow> world \<Rightarrow> presult option \<times> world" where
  "dispatch c input_path target_output_dir embedding_enabled kw w =
     (let ext_lower = str_lower c (snd (splitext input_path))
      in if ext_lower \<in> set (video_extensions c)
         then process_video c input_path target_output_dir w
         else if ext_lower \<in> set [''.eps'', ''.ai'', ''.svg'']
         then process_vector_file c input_path target_output_dir embedding_enabled kw w
         else if ext_lower \<in> set [''.jpg'', ''.jpeg'']
         then process_jpg_jpeg c input_path target_output_dir w
         else if ext_lower = ''.png''
         then process_png c input_path target_output_dir w
         else (Some (''failed_format'', None, None), w))"

text \<open>
  Lines 399--539: the processing proper, after the credential was selected and the signal
  read. The result is the dictionary of an early return (line 459), or the values of
  \<open>status\<close>, \<open>final_output_path\<close>, \<open>processed_metadata\<close> and \<open>new_filename\<close> with which line
  547 is reached; an exception sets \<open>status\<close> to \<open>failed_worker\<close> (line 545).
\<close>

definition process_body ::
  "collab \<Rightarrow> path \<Rightarrow> path \<Rightarrow> bool \<Rightarrow> bool \<Rightarrow> string \<Rightarrow> world \<Rightarrow>
   (result + status \<times> path option \<times> metadata option \<times> string option) \<times> world" where
  "process_body c input_path target_output_dir rename_enabled embedding_enabled kw w =
     (case dispatch c input_path target_output_dir embedding_enabled kw w of
        (None, w1) \<Rightarrow> (Inr (''failed_worker'', None, None, None), w1)
      | (Some (st, processed_metadata, initial_output_path), w1) \<Rightarrow>
         (case job_should_stop c w1 of
            (True, w2) \<Rightarrow> (Inl (short_result ''stopped'' input_path), w2)
          | (False, w2) \<Rightarrow>
             if st \<in> set processed_statuses
             then (case rename_output c (basename input_path) target_output_dir rename_enabled
                          processed_metadata initial_output_path w2 of
                     None \<Rightarrow>
                       (Inr (''failed_worker'', initial_output_path, processed_metadata, None), w2)
                   | Some (final_output_path, new_filename, w3) \<Rightarrow>
                       (case delete_and_log c input_path target_output_dir rename_enabled st
                               processed_metadata final_output_path new_filename w3 of
                          (True, w4) \<Rightarrow>
                            (Inr (''failed_worker'', final_output_path, processed_metadata,
                                  new_filename), w4)
                        | (False, w4) \<Rightarrow>
                            (Inr (st, final_output_path, processed_metadata, new_filename), w4)))
             else (Inr (st, None, processed_metadata, None), w2)))"

text \<open>Lines 360--374: the target directory.\<close>

definition target_dir :: "collab \<Rightarrow> path \<Rightarrow> path \<Rightarrow> bool \<Rightarrow> world \<Rightarrow> path \<times> world" where
  "target_dir c input_path output_dir auto_foldering_enabled w =
     (let ext_lower = str_lower c (snd (splitext input_path))
      in if auto_foldering_enabled
         then (let t = (if ext_lower \<in> set (video_extensions c) then join output_dir ''Videos''
                        else if ext_lower \<in> set [''.eps'', ''.ai'', ''.svg'']
                        then join output_dir ''Vectors''
                        else join output_dir ''Images'')
               in if \<not> path_exists w t
                  then (if makedirs_raises c t then (output_dir, w) else (t, makedirs t w))
                  else (t, w))
         else (output_dir, w))"

text \<open>\<open>process_single_file\<close>.\<close>

definition process_single_file ::
  "collab \<Rightarrow> path \<Rightarrow> path \<Rightarrow> string list \<Rightarrow> bool \<Rightarrow> bool \<Rightarrow> bool \<Rightarrow> string \<Rightarrow> world \<Rightarrow>
   result \<times> world" where
  "process_single_file c input_path output_dir api_keys_list rename_enabled auto_foldering_enabled
       embedding_enabled kw w =
     (case job_should_stop c w of
        (True, w1) \<Rightarrow> (short_result ''stopped'' input_path, w1)
      | (False, w1) \<Rightarrow>
         (case job_should_stop c w1 of
            (True, w2) \<Rightarrow> (short_result ''stopped'' input_path, w2)
          | (False, w2) \<Rightarrow>
             (case target_dir c input_path output_dir auto_foldering_enabled w2 of
                (target_output_dir, w3) \<Rightarrow>
                  if \<not> path_exists w3 input_path
                  then (short_result ''failed_input_missing'' input_path, w3)
                  else if api_keys_list = []
                  then (short_result ''failed_api_list_empty'' input_path, w3)
                  else (case select_api_key c api_keys_list of
                          None \<Rightarrow> (short_result ''failed_api_selection'' input_path, w3)
                        | Some selected_api_key \<Rightarrow>
                           (case job_should_stop c w3 of
                              (True, w4) \<Rightarrow> (short_result ''stopped'' input_path, w4)
                            | (False, w4) \<Rightarrow>
                               (case process_body c input_path target_output_dir rename_enabled
                                       embedding_enabled kw w4 of
                                  (Inl early, w5) \<Rightarrow> (early, w5)
                                | (Inr (st, final_output_path, processed_metadata, new_filename), w5) \<Rightarrow>
                                   (case job_should_stop c w5 of
                                      (True, w6) \<Rightarrow> (short_result ''stopped'' input_path, w6)
                                    | (False, w6) \<Rightarrow>
                                       (full_result st input_path final_output_path
                                          processed_metadata (basename input_path) new_filename,
                                        w6))))))))"


section \<open>Properties of the per-file processor\<close>

text \<open>
  For the examples: a drawing of 95 bytes, a black square of 9 by 9; collaborators of a run
  that is never cancelled and in which nothing fails (\<open>svg2rlg\<close> parses the square, the AI
  provider answers with the title \<open>Sunset\<close>, the JPEG processor copies the file to the
  target directory); and a disk with the given files and directories. All strings of the
  examples are ASCII.
\<close>

definition square_svg :: string where
  "square_svg = ''<svg xmlns=\"http://www.w3.org/2000/svg\" width=\"9\" height=\"9\"><rect width=\"9\" height=\"9\"/></svg>''"

definition sunset :: metadata where
  "sunset = \<lparr>title = Some ''Sunset'', description = ''A sunset'', tags = [''sun'', ''sky''],
             keyword_count = None\<rparr>"

definition plain :: collab where
  "plain =
     \<lparr>stop_event_set = (\<lambda>t. False), stop_requested = (\<lambda>t. False),
      str_lower = ascii_lower, str_strip = ascii_strip,
      video_extensions = [''.mp4'', ''.mov''],
      convert_eps_to_jpg = (\<lambda>src dst. (True, Some ''raster'')),
      svg2rlg = (\<lambda>d. if d = square_svg then Drawing ''square'' else ParseRaises),
      drawToFile = (\<lambda>g. Rendered ''raster''),
      compress_image = (\<lambda>p. NotCompressed),
      get_metadata = (\<lambda>p. AiMeta sunset),
      write_exif_with_exiftool = (\<lambda>src dst m. Some (True, ''exif_ok'', None)),
      process_video = (\<lambda>i d w. (Some (''failed_frames'', None, None), w)),
      process_jpg_jpeg = (\<lambda>i d w.
         (Some (''processed_exif'', Some sunset, Some (join d (basename i))),
          w\<lparr>files := (files w)(join d (basename i) := files w i),
            events := events w @ [AiCall i, Copied i (join d (basename i))]\<rparr>)),
      process_png = (\<lambda>i d w. (Some (''failed_api'', None, None), w)),
      select_api_key = (\<lambda>ks. case ks of [] \<Rightarrow> None | k # _ \<Rightarrow> Some k),
      sanitize_filename = (\<lambda>s. s),
      makedirs_raises = (\<lambda>p. False), copy_raises = (\<lambda>p. False), move_raises = (\<lambda>p. False),
      remove_raises = (\<lambda>p. False), csv_raises = (\<lambda>p. False)\<rparr>"

definition disk :: "(path \<times> string) list \<Rightarrow> path list \<Rightarrow> world" where
  "disk fs ds = \<lparr>files = map_of fs, dirs = set ds, ticks = 0, events = []\<rparr>"


lemma job_should_stop_eq:
  "job_should_stop c w = (b, w') \<Longrightarrow>
   w' = w\<lparr>ticks := ticks w + 1\<rparr> \<and> b = (stop_event_set c (ticks w) \<or> stop_requested c (ticks w))"
  by (auto simp: job_should_stop_def)

lemma target_dir_ticks: "target_dir c i d a w = (t, w') \<Longrightarrow> ticks w' = ticks w"
  by (auto simp: target_dir_def makedirs_def Let_def split: if_splits)

lemma process_body_early:
  assumes "process_body c input_path d ren emb kw w = (Inl early, w')"
  shows "early = short_result ''stopped'' input_path \<and>
         (\<exists>t. ticks w' = Suc t \<and> (stop_event_set c t \<or> stop_requested c t))"
proof -
  obtain pr w1 where dp: "dispatch c input_path d emb kw w = (pr, w1)"
    by (cases "dispatch c input_path d emb kw w")
  show ?thesis
  proof (cases pr)
    case None
    with assms dp show ?thesis by (simp add: process_body_def)
  next
    case (Some tr)
    obtain st md iop where tr: "tr = (st, md, iop)" by (cases tr)
    obtain b w2 where js: "job_should_stop c w1 = (b, w2)" by (cases "job_should_stop c w1")
    from job_should_stop_eq[OF js]
    have w2: "w2 = w1\<lparr>ticks := ticks w1 + 1\<rparr>"
      and b: "b = (stop_event_set c (ticks w1) \<or> stop_requested c (ticks w1))" by simp_all
    show ?thesis
    proof (cases b)
      case True
      with assms dp Some tr js have "early = short_result ''stopped'' input_path" "w' = w2"
        by (simp_all add: process_body_def)
      with True b w2 show ?thesis by auto
    next
      case False
      with assms dp Some tr js show ?thesis
        by (auto simp: process_body_def split: if_splits option.splits prod.splits bool.splits)
    qed
  qed
qed

text \<open>
  C10. Whenever the last reading of the cancellation signal by a call of
  \<open>process_single_file\<close> finds it set (the reading of line 547 when the processing ran to
  its end), the call returns exactly \<open>{"status": "stopped", "input": input_path}\<close>,
  whatever was done before.
\<close>

theorem stop_at_return_reports_stopped:
  assumes run: "process_single_file c input_path output_dir api_keys_list rename_enabled
                  auto_foldering_enabled embedding_enabled kw w = (r, w')"
    and last: "ticks w' = Suc t"
    and set: "stop_event_set c t \<or> stop_requested c t"
  shows "r = short_result ''stopped'' input_path"
proof -
  define s where "s = (\<lambda>n. stop_event_set c n \<or> stop_requested c n)"
  have js: "job_should_stop c v = (s (ticks v), v\<lparr>ticks := ticks v + 1\<rparr>)" for v
    by (simp add: job_should_stop_def s_def)
  have st: "s t" using set by (simp add: s_def)
  show ?thesis
  proof (cases "s (ticks w)")
    case True
    with run js show ?thesis by (simp add: process_single_file_def)
  next
    case f1: False
    let ?w1 = "w\<lparr>ticks := ticks w + 1\<rparr>"
    show ?thesis
    proof (cases "s (ticks ?w1)")
      case True
      with run js f1 show ?thesis by (simp add: process_single_file_def)
    next
      case f2: False
      let ?w2 = "?w1\<lparr>ticks := ticks ?w1 + 1\<rparr>"
      obtain td w3 where tg: "target_dir c input_path output_dir auto_foldering_enabled ?w2 = (td, w3)"
        by (cases "target_dir c input_path output_dir auto_foldering_enabled ?w2")
      from target_dir_ticks[OF tg] have t3: "ticks w3 = ticks w + 2" by simp
      from f2 have f2': "\<not> s (Suc (ticks w))" by simp
      have early3: "r = short_result ''stopped'' input_path" if "w' = w3"
        using that last t3 st f2' by simp
      show ?thesis
      proof (cases "\<not> path_exists w3 input_path \<or> api_keys_list = [] \<or> select_api_key c api_keys_list = None")
        case True
        with run js f1 f2 tg have "w' = w3"
          by (auto simp: process_single_file_def split: if_splits option.splits)
        then show ?thesis by (rule early3)
      next
        case False
        then obtain key where k: "path_exists w3 input_path" "api_keys_list \<noteq> []"
          "select_api_key c api_keys_list = Some key" by auto
        show ?thesis
        proof (cases "s (ticks w3)")
          case True
          with run js f1 f2 tg k show ?thesis by (simp add: process_single_file_def)
        next
          case f4: False
          let ?w4 = "w3\<lparr>ticks := ticks w3 + 1\<rparr>"
          obtain pb w5 where pb: "process_body c input_path td rename_enabled embedding_enabled kw ?w4 = (pb, w5)"
            by (cases "process_body c input_path td rename_enabled embedding_enabled kw ?w4")
          show ?thesis
          proof (cases pb)
            case (Inl early)
            with run js f1 f2 tg k f4 pb have "r = early" by (simp add: process_single_file_def)
            with process_body_early[OF pb[unfolded Inl]] show ?thesis by simp
          next
            case (Inr q)
            obtain st' fop md nf where q: "q = (st', fop, md, nf)" by (cases q)
            show ?thesis
            proof (cases "s (ticks w5)")
              case True
              with run js f1 f2 tg k f4 pb Inr q show ?thesis by (simp add: process_single_file_def)
            next
              case False
              with run js f1 f2 tg k f4 pb Inr q have "w' = w5\<lparr>ticks := ticks w5 + 1\<rparr>"
                by (simp add: process_single_file_def)
              with last have "t = ticks w5" by simp
              with st False show ?thesis by simp
            qed
          qed
        qed
      qed
    qed
  qed
qed

text \<open>
  A job that is cancelled after it copied, renamed and registered its file and deleted the
  original: it returns the \<open>stopped\<close> dictionary, which \<open>_handle_result\<close> counts in
  \<open>stopped_count\<close>.
\<close>

theorem stop_at_return_reports_stopped_witness:
  "ticks (snd (process_single_file (plain\<lparr>stop_event_set := (\<lambda>t. 4 \<le> t)\<rparr>) ''in/IMG_1.jpg'' ''out''
        [''k0''] True False True ''49''
        (disk [(''in/IMG_1.jpg'', ''jpegdata''), (''out/Sunset.jpg'', ''old'')] [''in'', ''out'']))) = Suc 4 \<and>
   stop_event_set (plain\<lparr>stop_event_set := (\<lambda>t. 4 \<le> t)\<rparr>) 4 \<and>
   fst (process_single_file (plain\<lparr>stop_event_set := (\<lambda>t. 4 \<le> t)\<rparr>) ''in/IMG_1.jpg'' ''out''
        [''k0''] True False True ''49''
        (disk [(''in/IMG_1.jpg'', ''jpegdata''), (''out/Sunset.jpg'', ''old'')] [''in'', ''out'']))
     = short_result ''stopped'' ''in/IMG_1.jpg'' \<and>
   events (snd (process_single_file (plain\<lparr>stop_event_set := (\<lambda>t. 4 \<le> t)\<rparr>) ''in/IMG_1.jpg'' ''out''
        [''k0''] True False True ''49''
        (disk [(''in/IMG_1.jpg'', ''jpegdata''), (''out/Sunset.jpg'', ''old'')] [''in'', ''out''])))
     = [AiCall ''in/IMG_1.jpg'', Copied ''in/IMG_1.jpg'' ''out/IMG_1.jpg'',
        Moved ''out/IMG_1.jpg'' ''out/Sunset (1).jpg'', Removed ''in/IMG_1.jpg'',
        MadeDir ''out/metadata_csv'', CsvRow ''Sunset (1).jpg'' ''Sunset (1)''] \<and>
   stopped_count (handle_result ((calm [])\<lparr>future_result := (\<lambda>p. Returned (short_result ''stopped'' p))\<rparr>)
        ''in/IMG_1.jpg'' initial_state) = 1"
proof -
  let ?c = "plain\<lparr>stop_event_set := (\<lambda>t. 4 \<le> t)\<rparr>"
  let ?run = "process_single_file ?c ''in/IMG_1.jpg'' ''out'' [''k0''] True False True ''49''
        (disk [(''in/IMG_1.jpg'', ''jpegdata''), (''out/Sunset.jpg'', ''old'')] [''in'', ''out''])"
  have h1: "ticks (snd ?run) = Suc 4" by code_simp
  have h2: "stop_event_set ?c 4" by simp
  have ev: "events (snd ?run)
     = [AiCall ''in/IMG_1.jpg'', Copied ''in/IMG_1.jpg'' ''out/IMG_1.jpg'',
        Moved ''out/IMG_1.jpg'' ''out/Sunset (1).jpg'', Removed ''in/IMG_1.jpg'',
        MadeDir ''out/metadata_csv'', CsvRow ''Sunset (1).jpg'' ''Sunset (1)'']" by code_simp
  have cnt: "stopped_count (handle_result ((calm [])\<lparr>future_result := (\<lambda>p. Returned (short_result ''stopped'' p))\<rparr>)
        ''in/IMG_1.jpg'' initial_state) = 1"
    by (simp add: handle_result_def calm_def short_result_def initial_state_def Let_def)
  have "?run = (fst ?run, snd ?run)" by simp
  from stop_at_return_reports_stopped[OF this h1] h2
  have "fst ?run = short_result ''stopped'' ''in/IMG_1.jpg''" by blast
  with h1 h2 ev cnt show ?thesis by blast
qed

section \<open>The size of the input\<close>

lemma basename_idem: "basename (basename p) = basename p"
proof -
  have "\<forall>x\<in>set (takeWhile (\<lambda>ch. ch \<noteq> CHR ''/'') (rev p)). x \<noteq> CHR ''/''"
    by (auto dest: set_takeWhileD)
  then have "takeWhile (\<lambda>ch. ch \<noteq> CHR ''/'') (takeWhile (\<lambda>ch. ch \<noteq> CHR ''/'') (rev p))
      = takeWhile (\<lambda>ch. ch \<noteq> CHR ''/'') (rev p)"
    by (simp add: takeWhile_eq_all_conv)
  then show ?thesis by (simp add: basename_def)
qed

lemma splitext_basename: "snd (splitext (basename p)) = snd (splitext p)"
  by (simp add: splitext_def basename_idem Let_def)

lemma remove_if_exists_events: "set (events w) \<subseteq> set (events (remove_if_exists c p w))"
  by (auto simp: remove_if_exists_def)

lemma convert_svg_events: "events (snd (convert_svg_to_jpg c i p w)) = events w"
  by (auto simp: convert_svg_to_jpg_def check_stop_def Let_def
      split: option.splits parse_result.splits render_result.splits bool.splits)

lemma run_conversion_events:
  "events (snd (run_conversion c i t el w)) = events w @ [Converted i t]"
  by (cases "convert_eps_to_jpg c i t") (simp add: run_conversion_def Let_def convert_svg_events)

lemma convert_vector_called:
  assumes "\<forall>t. \<not> stop_event_set c t"
  shows "Converted i (join tf (fst (splitext fn) @ ''_converted.jpg''))
           \<in> set (events (snd (convert_vector c i tf fn el w)))"
proof -
  let ?t = "join tf (fst (splitext fn) @ ''_converted.jpg'')"
  let ?w1 = "w\<lparr>ticks := ticks w + 1\<rparr>"
  have cs: "check_stop c w = (False, ?w1)" using assms by (simp add: check_stop_def)
  obtain ok w2 where rc: "run_conversion c i ?t el ?w1 = (ok, w2)"
    by (cases "run_conversion c i ?t el ?w1")
  from run_conversion_events[of c i ?t el ?w1] rc
  have e2: "Converted i ?t \<in> set (events w2)" by simp
  have "set (events w2) \<subseteq> set (events (snd (convert_vector c i tf fn el w)))"
  proof (cases ok)
    case False
    with cs rc remove_if_exists_events[of w2 c ?t] show ?thesis
      by (simp add: convert_vector_def Let_def)
  next
    case True
    with cs rc show ?thesis
      by (cases "compress_image c ?t") (auto simp: convert_vector_def Let_def)
  qed
  with e2 show ?thesis by blast
qed

lemma path_exists_ticks [simp]: "path_exists (w\<lparr>ticks := n\<rparr>) p = path_exists w p"
  by (simp add: path_exists_def)

lemma embed_vector_events: "set (events w) \<subseteq> set (events (snd (embed_vector c i p md emb kw w)))"
  by (auto simp: embed_vector_def Let_def split: option.splits prod.splits)

lemma embed_vector_status:
  assumes "embed_vector c i p md emb kw w = ((st, m, q), w')"
    and "\<forall>a b m' pr s r. write_exif_with_exiftool c a b m' = Some (pr, s, r) \<longrightarrow> s \<noteq> ''empty''"
  shows "st \<noteq> ''failed_empty''"
  using assms
  by (auto simp: embed_vector_def Let_def split: option.splits prod.splits if_splits) blast+

lemma convert_vector_status:
  "convert_vector c i tf fn el w = (Inl (st, m, q), w') \<Longrightarrow> st \<noteq> ''failed_empty''"
  by (auto simp: convert_vector_def Let_def
      split: prod.splits bool.splits if_splits compress_result.splits)

lemma process_vector_file_status:
  assumes "process_vector_file c i d emb kw w = (Some (st, m, q), w')"
    and "\<forall>a b m' pr s r. write_exif_with_exiftool c a b m' = Some (pr, s, r) \<longrightarrow> s \<noteq> ''empty''"
  shows "st \<noteq> ''failed_empty''"
proof
  assume fe: "st = ''failed_empty''"
  let ?fn = "basename i"
  let ?el = "str_lower c (snd (splitext ?fn))"
  let ?tf = "join d ''temp_compressed''"
  from assms(1) fe show False
    apply (simp add: process_vector_file_def Let_def
        split: prod.splits bool.splits if_splits sum.splits ai_result.splits option.splits)
    apply (auto dest: convert_vector_status embed_vector_status[OF _ assms(2)])
    done
qed

lemma process_vector_file_converts:
  assumes ns: "\<forall>t. \<not> stop_event_set c t"
    and ext: "str_lower c (snd (splitext (basename i))) \<in> set [''.eps'', ''.ai'', ''.svg'']"
    and fresh: "\<not> path_exists w (join d (basename i))"
    and tmp: "\<not> makedirs_raises c (join d ''temp_compressed'')"
  shows "Converted i (join (join d ''temp_compressed'') (fst (splitext (basename i)) @ ''_converted.jpg''))
           \<in> set (events (snd (process_vector_file c i d emb kw w)))"
proof -
  let ?fn = "basename i"
  let ?el = "str_lower c (snd (splitext ?fn))"
  let ?tf = "join d ''temp_compressed''"
  let ?ev = "Converted i (join ?tf (fst (splitext ?fn) @ ''_converted.jpg''))"
  let ?w1 = "w\<lparr>ticks := ticks w + 1\<rparr>"
  have cs: "check_stop c v = (False, v\<lparr>ticks := ticks v + 1\<rparr>)" for v
    using ns by (simp add: check_stop_def)
  obtain res w2 where cv: "convert_vector c i ?tf ?fn ?el (makedirs ?tf ?w1) = (res, w2)"
    by (cases "convert_vector c i ?tf ?fn ?el (makedirs ?tf ?w1)")
  from convert_vector_called[OF ns, of i ?tf ?fn ?el "makedirs ?tf ?w1"] cv
  have e2: "?ev \<in> set (events w2)" by simp
  have need: "?el = ''.eps'' \<or> ?el = ''.ai'' \<or> ?el = ''.svg''" using ext by simp
  show ?thesis
  proof (cases res)
    case (Inl early)
    with cs cv fresh tmp need e2 show ?thesis
      by (simp add: process_vector_file_def Let_def)
  next
    case (Inr t)
    let ?w3 = "w2\<lparr>events := events w2 @ [AiCall t]\<rparr>"
    let ?w4 = "remove_if_exists c t ?w3"
    have e4: "?ev \<in> set (events ?w4)"
      using e2 remove_if_exists_events[of ?w3 c t] by auto
    have pv: "process_vector_file c i d emb kw w =
        (case get_metadata c t of
           AiStopped \<Rightarrow> (Some (''stopped'', None, None), ?w4)
         | AiError err \<Rightarrow> (Some (''failed_api'', None, None), ?w4)
         | AiInvalid \<Rightarrow> (Some (''failed_api'', None, None), ?w4)
         | AiMeta md \<Rightarrow>
             (case embed_vector c i (join d ?fn) md emb kw (?w4\<lparr>ticks := ticks ?w4 + 1\<rparr>) of
                (r, w6) \<Rightarrow> (Some r, w6)))"
      using cs cv fresh tmp need Inr
      by (simp add: process_vector_file_def Let_def split: ai_result.splits)
    show ?thesis
    proof (cases "get_metadata c t")
      case (AiMeta md)
      let ?w5 = "?w4\<lparr>ticks := ticks ?w4 + 1\<rparr>"
      have "?ev \<in> set (events ?w5)" using e4 by simp
      with embed_vector_events[of ?w5 c i "join d ?fn" md emb kw]
      have "?ev \<in> set (events (snd (embed_vector c i (join d ?fn) md emb kw ?w5)))" by blast
      with pv AiMeta show ?thesis by (simp split: prod.splits)
    qed (use pv e4 in simp_all)
  qed
qed

lemma rename_output_events:
  "rename_output c ofn td ren md iop w = Some (fop, nf, w') \<Longrightarrow> set (events w) \<subseteq> set (events w')"
  by (auto simp: rename_output_def Let_def split: option.splits if_splits prod.splits)

lemma delete_and_log_events:
  "set (events w) \<subseteq> set (events (snd (delete_and_log c i td ren st md fop nf w)))"
proof -
  have a: "set (events w) \<subseteq> set (events (remove_if_exists c i w))" by (rule remove_if_exists_events)
  have b: "set (events v) \<subseteq> set (events (makedirs p v))" for v p by (auto simp: makedirs_def)
  show ?thesis using a b
    by (auto simp: delete_and_log_def Let_def split: option.splits prod.splits bool.splits)
qed

lemma process_body_after_dispatch:
  assumes ns: "\<forall>t. \<not> stop_event_set c t \<and> \<not> stop_requested c t"
    and dp: "dispatch c i td emb kw w = (pr, w1)"
  shows "\<exists>st' fop md nf w'. process_body c i td ren emb kw w = (Inr (st', fop, md, nf), w') \<and>
           set (events w1) \<subseteq> set (events w') \<and>
           (st' = ''failed_worker'' \<or> (\<exists>m q. pr = Some (st', m, q)))"
proof (cases pr)
  case None
  with dp show ?thesis by (simp add: process_body_def)
next
  case (Some tr)
  obtain st m q where tr: "tr = (st, m, q)" by (cases tr)
  let ?w2 = "w1\<lparr>ticks := ticks w1 + 1\<rparr>"
  have js: "job_should_stop c w1 = (False, ?w2)" using ns by (simp add: job_should_stop_def)
  show ?thesis
  proof (cases "st \<in> set processed_statuses")
    case False
    with dp Some tr js show ?thesis by (simp add: process_body_def)
  next
    case True
    show ?thesis
    proof (cases "rename_output c (basename i) td ren m q ?w2")
      case None
      with dp Some tr js True show ?thesis by (simp add: process_body_def)
    next
      case (Some ro)
      obtain fop nf w3 where ro: "ro = (fop, nf, w3)" by (cases ro)
      from rename_output_events[OF Some[unfolded ro]] have e3: "set (events w1) \<subseteq> set (events w3)"
        by simp
      obtain b w4 where dl: "delete_and_log c i td ren st m fop nf w3 = (b, w4)"
        by (cases "delete_and_log c i td ren st m fop nf w3")
      from delete_and_log_events[of w3 c i td ren st m fop nf] dl e3
      have e4: "set (events w1) \<subseteq> set (events w4)" by auto
      from dp \<open>pr = Some tr\<close> tr js True Some ro dl e4 show ?thesis
        by (cases b) (simp_all add: process_body_def)
    qed
  qed
qed

text \<open>
  C9. \<open>process_image\<close> rejects a file under 100 bytes before anything else (lines
  261--268), but \<open>process_single_file\<close>, which the batch runs, never compares the size and
  hands \<open>.eps\<close>, \<open>.ai\<close> and \<open>.svg\<close> files to \<open>process_vector_file\<close> directly. So for every
  vector file under 100 bytes, whatever the converters and the other collaborators do:
  when the run is not cancelled, a credential is selected, the output does not exist yet
  and the temporary folder can be made, the converter is called on the file, and the job
  does not end as \<open>failed_empty\<close>. (The EXIF writer reports no status \<open>empty\<close>:
  its statuses are those listed in exif\_writer.py.)
\<close>

theorem small_vector_is_converted:
  assumes ns: "\<forall>t. \<not> stop_event_set c t \<and> \<not> stop_requested c t"
    and ext: "str_lower c (snd (splitext input_path)) \<in> set [''.eps'', ''.ai'', ''.svg'']"
    and nv: "str_lower c (snd (splitext input_path)) \<notin> set (video_extensions c)"
    and small: "files w input_path = Some d \<and> length d < 100"
    and key: "api_keys_list \<noteq> [] \<and> select_api_key c api_keys_list = Some k"
    and fresh: "\<not> path_exists w (join output_dir (basename input_path))"
    and tmp: "\<not> makedirs_raises c (join output_dir ''temp_compressed'')"
    and exif: "\<forall>a b m pr s r. write_exif_with_exiftool c a b m = Some (pr, s, r) \<longrightarrow> s \<noteq> ''empty''"
  shows "Converted input_path
           (join (join output_dir ''temp_compressed'')
              (fst (splitext (basename input_path)) @ ''_converted.jpg''))
           \<in> set (events (snd (process_single_file c input_path output_dir api_keys_list
                                  rename_enabled False embedding_enabled kw w))) \<and>
         r_status (fst (process_single_file c input_path output_dir api_keys_list
                          rename_enabled False embedding_enabled kw w)) \<noteq> ''failed_empty''"
proof -
  let ?ev = "Converted input_path
           (join (join output_dir ''temp_compressed'')
              (fst (splitext (basename input_path)) @ ''_converted.jpg''))"
  have js: "job_should_stop c v = (False, v\<lparr>ticks := ticks v + 1\<rparr>)" for v
    using ns by (simp add: job_should_stop_def)
  let ?w4 = "w\<lparr>ticks := Suc (Suc (Suc (ticks w)))\<rparr>"
  have ns': "\<forall>t. \<not> stop_event_set c t" using ns by simp
  have ext': "str_lower c (snd (splitext (basename input_path))) \<in> set [''.eps'', ''.ai'', ''.svg'']"
    using ext by (simp add: splitext_basename)
  have fresh': "\<not> path_exists ?w4 (join output_dir (basename input_path))" using fresh by simp
  have dp: "dispatch c input_path output_dir embedding_enabled kw ?w4
      = process_vector_file c input_path output_dir embedding_enabled kw ?w4"
    using ext nv by (simp add: dispatch_def Let_def)
  obtain pr w5 where pv: "process_vector_file c input_path output_dir embedding_enabled kw ?w4 = (pr, w5)"
    by (cases "process_vector_file c input_path output_dir embedding_enabled kw ?w4")
  from process_vector_file_converts[OF ns' ext' fresh' tmp, of embedding_enabled kw] pv
  have e5: "?ev \<in> set (events w5)" by simp
  from process_body_after_dispatch[OF ns dp[unfolded pv], of rename_enabled]
  obtain st' fop md nf w6 where
    pb: "process_body c input_path output_dir rename_enabled embedding_enabled kw ?w4
           = (Inr (st', fop, md, nf), w6)"
    and e6: "set (events w5) \<subseteq> set (events w6)"
    and st: "st' = ''failed_worker'' \<or> (\<exists>m q. pr = Some (st', m, q))" by blast
  have st_ne: "st' \<noteq> ''failed_empty''"
  proof (cases "st' = ''failed_worker''")
    case True then show ?thesis by simp
  next
    case False
    with st obtain m q where "pr = Some (st', m, q)" by blast
    with pv process_vector_file_status[OF _ exif] show ?thesis by blast
  qed
  have ex: "path_exists w input_path" using small by (simp add: path_exists_def)
  have run: "process_single_file c input_path output_dir api_keys_list rename_enabled False
               embedding_enabled kw w
      = (full_result st' input_path fop md (basename input_path) nf, w6\<lparr>ticks := ticks w6 + 1\<rparr>)"
    using js ex key pb by (simp add: process_single_file_def target_dir_def Let_def)
  show ?thesis using run e5 e6 st_ne by (auto simp: full_result_def)
qed

text \<open>
  The square of 95 bytes: \<open>process_image\<close> answers \<open>failed_empty\<close>; \<open>process_single_file\<close>
  converts it, sends the raster to the AI provider and reports \<open>processed_exif\<close>.
\<close>

theorem small_vector_is_converted_witness:
  "(\<forall>t. \<not> stop_event_set plain t \<and> \<not> stop_requested plain t) \<and>
   str_lower plain (snd (splitext ''in/square.svg'')) \<in> set [''.eps'', ''.ai'', ''.svg''] \<and>
   str_lower plain (snd (splitext ''in/square.svg'')) \<notin> set (video_extensions plain) \<and>
   files (disk [(''in/square.svg'', square_svg)] [''in'', ''out'']) ''in/square.svg'' = Some square_svg \<and>
   length square_svg = 95 \<and>
   select_api_key plain [''k0''] = Some ''k0'' \<and>
   \<not> path_exists (disk [(''in/square.svg'', square_svg)] [''in'', ''out''])
        (join ''out'' (basename ''in/square.svg'')) \<and>
   \<not> makedirs_raises plain (join ''out'' ''temp_compressed'') \<and>
   fst (process_image plain ''in/square.svg'' ''out'' True ''49''
        (disk [(''in/square.svg'', square_svg)] [''in'', ''out'']))
     = Some (''failed_empty'', None, None) \<and>
   r_status (fst (process_single_file plain ''in/square.svg'' ''out'' [''k0''] False False True ''49''
        (disk [(''in/square.svg'', square_svg)] [''in'', ''out'']))) = ''processed_exif'' \<and>
   events (snd (process_single_file plain ''in/square.svg'' ''out'' [''k0''] False False True ''49''
        (disk [(''in/square.svg'', square_svg)] [''in'', ''out''])))
     = [MadeDir ''out/temp_compressed'',
        Converted ''in/square.svg'' ''out/temp_compressed/square_converted.jpg'',
        AiCall ''out/temp_compressed/square_converted.jpg'',
        Removed ''out/temp_compressed/square_converted.jpg'',
        Copied ''in/square.svg'' ''out/square.svg'',
        ExifWritten ''in/square.svg'' ''out/square.svg'', Removed ''in/square.svg'',
        MadeDir ''out/metadata_csv'', CsvRow ''square.svg'' ''Sunset'']"
proof -
  let ?w = "disk [(''in/square.svg'', square_svg)] [''in'', ''out'']"
  have h1: "\<forall>t. \<not> stop_event_set plain t \<and> \<not> stop_requested plain t" by (simp add: plain_def)
  have h2: "str_lower plain (snd (splitext ''in/square.svg'')) \<in> set [''.eps'', ''.ai'', ''.svg'']"
    by code_simp
  have h3: "str_lower plain (snd (splitext ''in/square.svg'')) \<notin> set (video_extensions plain)"
    by code_simp
  have len: "length square_svg = 95" by code_simp
  have h4: "files ?w ''in/square.svg'' = Some square_svg \<and> length square_svg < 100"
    using len by (simp add: disk_def)
  have h5: "[''k0''] \<noteq> [] \<and> select_api_key plain [''k0''] = Some ''k0''" by (simp add: plain_def)
  have h6: "\<not> path_exists ?w (join ''out'' (basename ''in/square.svg''))" by code_simp
  have h7: "\<not> makedirs_raises plain (join ''out'' ''temp_compressed'')" by (simp add: plain_def)
  have h8: "\<forall>a b m pr s r. write_exif_with_exiftool plain a b m = Some (pr, s, r) \<longrightarrow> s \<noteq> ''empty''"
    by (simp add: plain_def)
  have v1: "fst (process_image plain ''in/square.svg'' ''out'' True ''49'' ?w)
     = Some (''failed_empty'', None, None)" by code_simp
  have v2: "r_status (fst (process_single_file plain ''in/square.svg'' ''out'' [''k0''] False False True ''49'' ?w))
     = ''processed_exif''" by code_simp
  have v3: "events (snd (process_single_file plain ''in/square.svg'' ''out'' [''k0''] False False True ''49'' ?w))
     = [MadeDir ''out/temp_compressed'',
        Converted ''in/square.svg'' ''out/temp_compressed/square_converted.jpg'',
        AiCall ''out/temp_compressed/square_converted.jpg'',
        Removed ''out/temp_compressed/square_converted.jpg'',
        Copied ''in/square.svg'' ''out/square.svg'',
        ExifWritten ''in/square.svg'' ''out/square.svg'', Removed ''in/square.svg'',
        MadeDir ''out/metadata_csv'', CsvRow ''square.svg'' ''Sunset'']" by code_simp
  from small_vector_is_converted[OF h1 h2 h3 h4 h5 h6 h7 h8, of False True "''49''"]
  have "r_status (fst (process_single_file plain ''in/square.svg'' ''out'' [''k0''] False False True ''49'' ?w))
     \<noteq> ''failed_empty''" by blast
  with h1 h2 h3 h4 h5 h6 h7 len v1 v2 v3 show ?thesis by blast
qed

end
